theory Spec2Isabelle
  imports Main
begin

section \<open>Values, errors and the host\<close>

text \<open>
  The loader \<^verbatim>\<open>pml.js\<close> is dynamically typed: \<^verbatim>\<open>define\<close> inspects its
  arguments with \<^verbatim>\<open>||\<close>, \<^verbatim>\<open>Array.isArray\<close> and \<^verbatim>\<open>typeof\<close>. The
  values it can be handed are modelled by \<open>val\<close>. Numbers are the integer-valued ones,
  arrays are arrays of strings (the documented type of a dependency list), strings are
  sequences of 8-bit characters, and a function is a reference whose behaviour the host supplies
  (\<open>applyFn\<close>): a factory is taken to compute its result from its arguments alone.
\<close>

type_synonym fnref = nat

datatype val =
    VUndefined
  | VNull
  | VBool bool
  | VNum int
  | VStr string
  | VArr "string list"
  | VObj "(string \<times> val) list"
  | VFun fnref

text \<open>
  \<open>TypeError\<close>, \<open>Error\<close> and \<open>ReferenceError\<close> carry the message the code builds.
  \<open>NullDereference\<close> is the TypeError the engine raises when a property of \<^verbatim>\<open>null\<close>
  or \<^verbatim>\<open>undefined\<close> is read, \<open>InvalidURL\<close> the TypeError of the \<^verbatim>\<open>URL\<close>
  constructor, and \<open>Thrown v\<close> a value thrown by a factory.
\<close>

datatype error =
    TypeError string
  | Error string
  | ReferenceError string
  | NullDereference
  | InvalidURL
  | Thrown val

record host =
  applyFn :: "fnref \<Rightarrow> val list \<Rightarrow> error + val"
  newURL :: "string \<Rightarrow> string \<Rightarrow> string option"

fun truthy :: "val \<Rightarrow> bool" where
  "truthy VUndefined = False"
| "truthy VNull = False"
| "truthy (VBool b) = b"
| "truthy (VNum n) = (n \<noteq> 0)"
| "truthy (VStr s) = (s \<noteq> [])"
| "truthy (VArr xs) = True"
| "truthy (VObj fs) = True"
| "truthy (VFun f) = True"

definition js_or :: "val \<Rightarrow> val \<Rightarrow> val" where
  "js_or a b = (if truthy a then a else b)"

section \<open>The three regular expressions\<close>

text \<open>
  In a JavaScript regular expression \<^verbatim>\<open>.\<close> matches every character but a line
  terminator, while a negated class such as \<^verbatim>\<open>[^\/]\<close> matches those too. A failed
  \<^verbatim>\<open>match\<close> returns \<^verbatim>\<open>null\<close>, and indexing it raises.
\<close>

definition slash :: char where
  "slash = CHR ''/''"

definition backslash :: char where
  "backslash = CHR 0x5C"

definition line_terminator :: "char \<Rightarrow> bool" where
  "line_terminator c \<longleftrightarrow> c = CHR 0x0A \<or> c = CHR 0x0D"

text \<open>
  \<^verbatim>\<open>/^(.*?)[^\/]*$/\<close>, group 1. The lazy group is tried at length 0, 1, 2, ...; at each
  length the greedy class must reach the end of the input. \<open>p\<close> is what the group holds so
  far, the second argument the rest of the input.
\<close>

fun lazy_dirname :: "string \<Rightarrow> string \<Rightarrow> string option" where
  "lazy_dirname p [] = Some p"
| "lazy_dirname p (c # r) =
     (if slash \<notin> set (c # r) then Some p
      else if line_terminator c then None
      else lazy_dirname (p @ [c]) r)"

definition dirname :: "string \<Rightarrow> string option" where
  "dirname s = lazy_dirname [] s"

text \<open>
  \<^verbatim>\<open>(.*?)\/?$\<close>, the tail shared by the other two expressions: the lazy group stops as
  soon as the rest of the input is empty or a single \<^verbatim>\<open>/\<close>.
\<close>

fun lazy_path :: "string \<Rightarrow> string \<Rightarrow> string option" where
  "lazy_path p [] = Some p"
| "lazy_path p (c # r) =
     (if c = slash \<and> r = [] then Some p
      else if line_terminator c then None
      else lazy_path (p @ [c]) r)"

text \<open>
  \<^verbatim>\<open>[^\/]*\/\/[^\/]+\/\<close> at the start of the input: what it matches and what is left.
\<close>

definition authority :: "string \<Rightarrow> (string \<times> string) option" where
  "authority s =
     (let a = takeWhile (\<lambda>c. c \<noteq> slash) s; r1 = dropWhile (\<lambda>c. c \<noteq> slash) s in
      case r1 of
        c1 # c2 # r2 \<Rightarrow>
          if c2 = slash then
            (let b = takeWhile (\<lambda>c. c \<noteq> slash) r2; r3 = dropWhile (\<lambda>c. c \<noteq> slash) r2 in
             case r3 of
               [] \<Rightarrow> None
             | c3 # r4 \<Rightarrow> if b = [] then None else Some (a @ [c1, c2] @ b @ [c3], r4))
          else None
      | _ \<Rightarrow> None)"

text \<open>
  \<^verbatim>\<open>/^([^\/]*\/\/[^\/]+\/)?(.*?)\/?$/\<close>: groups 1 and 2; group 1 is \<open>None\<close> when it
  takes no part in the match. The optional group is tried first and left out on backtracking.
\<close>

definition base_match :: "string \<Rightarrow> (string option \<times> string) option" where
  "base_match s =
     (case authority s of
        Some (pre, rest) \<Rightarrow>
          (case lazy_path [] rest of
             Some q \<Rightarrow> Some (Some pre, q)
           | None \<Rightarrow> map_option (Pair None) (lazy_path [] s))
      | None \<Rightarrow> map_option (Pair None) (lazy_path [] s))"

text \<open>\<^verbatim>\<open>/^\/?(.*?)\/?$/\<close>, group 1.\<close>

definition id_match :: "string \<Rightarrow> string option" where
  "id_match s =
     (case s of
        c # r \<Rightarrow>
          if c = slash then
            (case lazy_path [] r of Some q \<Rightarrow> Some q | None \<Rightarrow> lazy_path [] s)
          else lazy_path [] s
      | [] \<Rightarrow> lazy_path [] s)"

section \<open>Relative identifier resolution\<close>

text \<open>\<^verbatim>\<open>s.split('/')\<close>: the empty string gives one empty term.\<close>

fun split_slash :: "string \<Rightarrow> string list" where
  "split_slash [] = [[]]"
| "split_slash (c # cs) =
     (if c = slash then [] # split_slash cs
      else (case split_slash cs of [] \<Rightarrow> [[c]] | t # ts \<Rightarrow> (c # t) # ts))"

text \<open>\<^verbatim>\<open>terms.join('/')\<close>.\<close>

fun join_slash :: "string list \<Rightarrow> string" where
  "join_slash [] = []"
| "join_slash [t] = t"
| "join_slash (t # ts) = t @ [slash] @ join_slash ts"

text \<open>
  The \<^verbatim>\<open>for\<close> loop over \<^verbatim>\<open>idTerms\<close>. \<^verbatim>\<open>pop\<close> on an empty array leaves
  it empty.
\<close>

fun walk_terms :: "string list \<Rightarrow> string list \<Rightarrow> string list" where
  "walk_terms terms [] = terms"
| "walk_terms terms (idTerm # rest) =
     (if idTerm = ''.'' then walk_terms terms rest
      else if idTerm = ''..'' then walk_terms (butlast terms) rest
      else walk_terms (terms @ [idTerm]) rest)"

definition resolveRelativeId :: "string \<Rightarrow> string \<Rightarrow> error + string" where
  "resolveRelativeId base ident =
     (if (case ident of [] \<Rightarrow> True | c # _ \<Rightarrow> c \<noteq> CHR ''.'') then Inr ident
      else
        (case base_match base of
           None \<Rightarrow> Inl NullDereference
         | Some (g1, g2) \<Rightarrow>
             (let prefix = (case g1 of None \<Rightarrow> [] | Some p \<Rightarrow> p);
                  terms = (if g2 \<noteq> [] then split_slash g2 else [])
              in case id_match ident of
                   None \<Rightarrow> Inl NullDereference
                 | Some g \<Rightarrow> Inr (prefix @ join_slash (walk_terms terms (split_slash g))))))"

section \<open>Identifier inference\<close>

text \<open>
  What \<^verbatim>\<open>_inferModuleId\<close> reads from the document: the current script element (the
  value of \<^verbatim>\<open>document._currentScript || document.currentScript\<close>, \<open>None\<close> when
  there is none), its \<^verbatim>\<open>as\<close> and \<^verbatim>\<open>src\<close> attributes, its owner document and
  the global document. A missing \<^verbatim>\<open>baseURI\<close> is \<open>None\<close>.
\<close>

record document =
  baseURI :: "string option"

record script =
  attr_as :: "string option"
  attr_src :: "string option"
  ownerDocument :: "document option"

record exec_context =
  currentScript :: "script option"
  global_document :: document

definition inferModuleId :: "host \<Rightarrow> exec_context \<Rightarrow> error + string" where
  "inferModuleId h ctx =
     (case currentScript ctx of
        None \<Rightarrow> Inl NullDereference
      | Some script \<Rightarrow>
          (case attr_as script of
             Some a \<Rightarrow> Inr a
           | None \<Rightarrow>
               (let doc = (case ownerDocument script of Some d \<Rightarrow> d | None \<Rightarrow> global_document ctx) in
                case baseURI doc of
                  None \<Rightarrow> Inl (Error ''Unable to determine a module id: No baseURI for the document'')
                | Some b \<Rightarrow>
                    if b = [] then
                      Inl (Error ''Unable to determine a module id: No baseURI for the document'')
                    else
                      (case attr_src script of
                         Some src \<Rightarrow>
                           (case newURL h src b of None \<Rightarrow> Inl InvalidURL | Some u \<Rightarrow> Inr u)
                       | None \<Rightarrow> Inr b))))"

section \<open>The loader's state\<close>

text \<open>
  Each call of \<^verbatim>\<open>_runFactory\<close> that gets past its first test owns the variables
  \<^verbatim>\<open>unresolvedDependencies\<close>, \<^verbatim>\<open>modules\<close> and \<^verbatim>\<open>requireError\<close>, which the
  callbacks it hands to \<^verbatim>\<open>_require\<close> share. Such an activation is a \<open>scope\<close>.
  \<^verbatim>\<open>modules\<close> is a JavaScript array written by index, so a slot may be a hole.

  The fields \<open>settled\<close>, \<open>applied\<close> and \<open>completed\<close> are history variables, read by
  no operation: the calls of the dependency callback (a \<open>settlement\<close> holds what the
  callback sees: \<^verbatim>\<open>dependencyIndex\<close>, \<^verbatim>\<open>dependencyId\<close>, \<^verbatim>\<open>error\<close> and
  \<^verbatim>\<open>dependency\<close>), the argument lists \<^verbatim>\<open>factory.apply\<close> was called with, and
  the calls of the completion callback \<^verbatim>\<open>callback\<close> (error and module).
\<close>

record settlement =
  at_index :: nat
  for_id :: string
  with_error :: "error option"
  with_value :: val

record scope =
  moduleId :: string
  base :: string
  dependencies :: "string list"
  factory :: fnref
  unresolvedDependencies :: int
  modules :: "val option list"
  requireError :: bool
  settled :: "settlement list"
  applied :: "val list list"
  completed :: "(error option \<times> val) list"

text \<open>
  A script element appended by \<^verbatim>\<open>loadScript\<close> whose \<^verbatim>\<open>onload\<close> has not fired:
  its \<^verbatim>\<open>src\<close> and what the callback built in \<^verbatim>\<open>_require\<close> captured.
\<close>

record load =
  load_src :: string
  load_id :: string
  load_moduleId :: string
  load_scope :: nat
  load_index :: nat

text \<open>
  \<open>registry\<close> is \<^verbatim>\<open>_modules\<close>, created by \<^verbatim>\<open>Object.create(null)\<close>: a plain map
  without inherited keys. \<open>commits\<close> is a history variable: the writes to \<^verbatim>\<open>_modules\<close>.
\<close>

record state =
  registry :: "string \<rightharpoonup> val"
  scopes :: "scope list"
  pending :: "load list"
  console :: "string list"
  commits :: "(string \<times> val) list"

definition init :: state where
  "init = \<lparr>registry = Map.empty, scopes = [], pending = [], console = [], commits = []\<rparr>"

definition upd_scope :: "nat \<Rightarrow> (scope \<Rightarrow> scope) \<Rightarrow> state \<Rightarrow> state" where
  "upd_scope k f s = s\<lparr>scopes := (scopes s)[k := f (scopes s ! k)]\<rparr>"

text \<open>\<^verbatim>\<open>modules[i] = v\<close>: an index past the end extends the array with holes.\<close>

definition arr_set :: "val option list \<Rightarrow> nat \<Rightarrow> val \<Rightarrow> val option list" where
  "arr_set xs i v = (xs @ replicate (Suc i - length xs) None)[i := Some v]"

text \<open>\<^verbatim>\<open>apply\<close> reads a hole as \<^verbatim>\<open>undefined\<close>.\<close>

definition arguments :: "val option list \<Rightarrow> val list" where
  "arguments xs = map (\<lambda>x. case x of None \<Rightarrow> VUndefined | Some v \<Rightarrow> v) xs"

section \<open>The operations\<close>

text \<open>
  The completion callback that \<^verbatim>\<open>define\<close> passes to \<^verbatim>\<open>_runFactory\<close>; it captures
  \<^verbatim>\<open>id\<close>. The first component of the result is the exception that leaves the call.
\<close>

definition define_callback :: "string \<Rightarrow> error option \<Rightarrow> val \<Rightarrow> state \<Rightarrow> error option \<times> state" where
  "define_callback ident err module s =
     (case err of
        Some e \<Rightarrow> (Some e, s)
      | None \<Rightarrow>
          (None, s\<lparr>registry := (registry s)(ident \<mapsto> module),
                   commits := commits s @ [(ident, module)]\<rparr>))"

text \<open>
  The callback that \<^verbatim>\<open>_runFactory\<close> passes to \<^verbatim>\<open>_require\<close> for the dependency at
  \<open>dependencyIndex\<close> of scope \<open>k\<close>.
\<close>

definition settle ::
  "host \<Rightarrow> nat \<Rightarrow> string \<Rightarrow> nat \<Rightarrow> error option \<Rightarrow> val \<Rightarrow> state \<Rightarrow> error option \<times> state" where
  "settle h k dependencyId dependencyIndex err dependency s =
     (let s0 = upd_scope k (\<lambda>c. c\<lparr>settled := settled c @
                 [\<lparr>at_index = dependencyIndex, for_id = dependencyId,
                   with_error = err, with_value = dependency\<rparr>]\<rparr>) s in
      if requireError (scopes s0 ! k) then (None, s0)
      else
        (case err of
           Some e \<Rightarrow>
             define_callback (moduleId (scopes s0 ! k)) (Some e) VUndefined
               (upd_scope k (\<lambda>c. c\<lparr>requireError := True,
                                    completed := completed c @ [(Some e, VUndefined)]\<rparr>) s0)
         | None \<Rightarrow>
             (let s1 = s0\<lparr>console := console s0 @ [''Loaded '' @ dependencyId]\<rparr>;
                  s2 = upd_scope k (\<lambda>c. c\<lparr>modules := arr_set (modules c) dependencyIndex dependency,
                                           unresolvedDependencies := unresolvedDependencies c - 1\<rparr>) s1
              in if unresolvedDependencies (scopes s2 ! k) = 0 then
                   (let c = scopes s2 ! k;
                        s3 = s2\<lparr>console := console s2 @
                                  [''All dependencies resolved for '' @ moduleId c]\<rparr>;
                        args = arguments (modules c);
                        s4 = upd_scope k (\<lambda>c. c\<lparr>applied := applied c @ [args]\<rparr>) s3
                    in case applyFn h (factory c) args of
                         Inl e \<Rightarrow> (Some e, s4)
                       | Inr v \<Rightarrow>
                           define_callback (moduleId c) None v
                             (upd_scope k (\<lambda>c. c\<lparr>completed := completed c @ [(None, v)]\<rparr>) s4))
                 else (None, s2))))"

text \<open>\<^verbatim>\<open>loadScript\<close>: the script element joins the document; nothing runs yet.\<close>

definition loadScript :: "string \<Rightarrow> string \<Rightarrow> string \<Rightarrow> nat \<Rightarrow> nat \<Rightarrow> state \<Rightarrow> state" where
  "loadScript src ident requester k dependencyIndex s =
     s\<lparr>pending := pending s @
         [\<lparr>load_src = src, load_id = ident, load_moduleId = requester,
           load_scope = k, load_index = dependencyIndex\<rparr>]\<rparr>"

text \<open>
  \<^verbatim>\<open>_require\<close>. Its callback is always the one of scope \<open>k\<close> at \<open>dependencyIndex\<close>.
  The branch for \<^verbatim>\<open>'require'\<close> calls \<^verbatim>\<open>calback\<close>, a name bound nowhere, so the
  engine raises a ReferenceError there.
\<close>

definition require :: "host \<Rightarrow> string \<Rightarrow> string \<Rightarrow> nat \<Rightarrow> nat \<Rightarrow> state \<Rightarrow> error option \<times> state" where
  "require h ident requester k dependencyIndex s =
     (if ident = ''exports'' then settle h k ident dependencyIndex None (VObj []) s
      else if ident = ''require'' then (Some (ReferenceError ''calback is not defined''), s)
      else if ident = ''module'' then
        settle h k ident dependencyIndex None (VObj [(''id'', VStr requester)]) s
      else
        (case registry s ident of
           None \<Rightarrow>
             (None, loadScript (''components/jquery/dist/'' @ ident @ ''.js'')
                      ident requester k dependencyIndex s)
         | Some m \<Rightarrow> settle h k ident dependencyIndex None m s))"

text \<open>
  The function given to \<^verbatim>\<open>loadScript\<close> by \<^verbatim>\<open>_require\<close>, run when the script's
  \<^verbatim>\<open>onload\<close> fires. \<^verbatim>\<open>_modules[id]\<close> is tested for truthiness.
\<close>

definition not_loaded :: "string \<Rightarrow> string \<Rightarrow> error" where
  "not_loaded ident requester =
     ReferenceError (''The module '' @ [CHR 0x22] @ ident @ [CHR 0x22] @ '' has not been loaded'' @
                     (if requester \<noteq> [] then '' for '' @ requester else []))"

definition loaded :: "host \<Rightarrow> load \<Rightarrow> state \<Rightarrow> error option \<times> state" where
  "loaded h l s =
     (let m = (case registry s (load_id l) of None \<Rightarrow> VUndefined | Some v \<Rightarrow> v) in
      if truthy m then settle h (load_scope l) (load_id l) (load_index l) None m s
      else settle h (load_scope l) (load_id l) (load_index l)
             (Some (not_loaded (load_id l) (load_moduleId l))) VUndefined s)"

text \<open>The body of the function passed to \<^verbatim>\<open>dependencies.forEach\<close>.\<close>

definition requestDependency ::
  "host \<Rightarrow> nat \<Rightarrow> string \<Rightarrow> string \<Rightarrow> string \<Rightarrow> nat \<Rightarrow> state \<Rightarrow> error option \<times> state" where
  "requestDependency h k b requester dependencyId dependencyIndex s =
     (if dependencyId \<noteq> ''exports'' \<and> dependencyId \<noteq> ''require'' \<and> dependencyId \<noteq> ''module'' then
        (case resolveRelativeId b dependencyId of
           Inl e \<Rightarrow> (Some e, s)
         | Inr resolved \<Rightarrow> require h resolved requester k dependencyIndex s)
      else require h dependencyId requester k dependencyIndex s)"

text \<open>\<^verbatim>\<open>dependencies.forEach\<close>: an exception ends the iteration.\<close>

fun forEach ::
  "host \<Rightarrow> nat \<Rightarrow> string \<Rightarrow> string \<Rightarrow> string list \<Rightarrow> nat \<Rightarrow> state \<Rightarrow> error option \<times> state" where
  "forEach h k b requester [] i s = (None, s)"
| "forEach h k b requester (d # ds) i s =
     (case requestDependency h k b requester d i s of
        (Some e, s') \<Rightarrow> (Some e, s')
      | (None, s') \<Rightarrow> forEach h k b requester ds (Suc i) s')"

definition new_scope :: "string \<Rightarrow> string \<Rightarrow> string list \<Rightarrow> fnref \<Rightarrow> scope" where
  "new_scope ident b deps f =
     \<lparr>moduleId = ident, base = b, dependencies = deps, factory = f,
      unresolvedDependencies = int (length deps), modules = [], requireError = False,
      settled = [], applied = [], completed = []\<rparr>"

definition runFactory ::
  "host \<Rightarrow> string \<Rightarrow> string \<Rightarrow> string list \<Rightarrow> val \<Rightarrow> state \<Rightarrow> error option \<times> state" where
  "runFactory h ident b deps fct s =
     (case fct of
        VFun f \<Rightarrow>
          (let k = length (scopes s);
               s1 = s\<lparr>scopes := scopes s @ [new_scope ident b deps f]\<rparr>
           in if unresolvedDependencies (scopes s1 ! k) = 0 then
                (let args = arguments (modules (scopes s1 ! k));
                     s2 = upd_scope k (\<lambda>c. c\<lparr>applied := applied c @ [args]\<rparr>) s1
                 in case applyFn h f args of
                      Inl e \<Rightarrow> (Some e, s2)
                    | Inr v \<Rightarrow>
                        define_callback ident None v
                          (upd_scope k (\<lambda>c. c\<lparr>completed := completed c @ [(None, v)]\<rparr>) s2))
              else forEach h k b ident deps 0 s1)
      | _ \<Rightarrow> define_callback ident None fct s)"

text \<open>
  \<^verbatim>\<open>define(id, dependencies, factory)\<close>; an argument left out is \<^verbatim>\<open>undefined\<close>.
\<close>

definition already_defined :: "string \<Rightarrow> error" where
  "already_defined ident =
     Error (''The module '' @ [CHR 0x22] @ ident @ [CHR 0x22] @ '' has already been defined'')"

definition invalid_identifier :: error where
  "invalid_identifier = TypeError ''Please use / as module path delimiters''"

definition effective_dependencies :: "val \<Rightarrow> val \<Rightarrow> string list" where
  "effective_dependencies ident deps =
     (case deps of
        VArr ds \<Rightarrow> ds
      | _ \<Rightarrow> (case ident of VArr ds \<Rightarrow> ds | _ \<Rightarrow> []))"

definition effective_id :: "val \<Rightarrow> string \<Rightarrow> string" where
  "effective_id ident inferredId = (case ident of VStr i \<Rightarrow> i | _ \<Rightarrow> inferredId)"

definition "define" ::
  "host \<Rightarrow> exec_context \<Rightarrow> val \<Rightarrow> val \<Rightarrow> val \<Rightarrow> state \<Rightarrow> error option \<times> state" where
  "define h ctx ident deps fct s =
     (let fct' = js_or (js_or fct deps) ident;
          deps' = effective_dependencies ident deps
      in case inferModuleId h ctx of
           Inl e \<Rightarrow> (Some e, s)
         | Inr inferredId \<Rightarrow>
             (let ident' = effective_id ident inferredId in
              if backslash \<in> set ident' then (Some invalid_identifier, s)
              else if registry s ident' \<noteq> None then (Some (already_defined ident'), s)
              else
                (case dirname inferredId of
                   None \<Rightarrow> (Some NullDereference, s)
                 | Some b \<Rightarrow> runFactory h ident' b deps' fct' s)))"

section \<open>Runs\<close>

text \<open>
  Everything runs on one thread. Between two events nothing happens; an event is a call of
  \<^verbatim>\<open>define\<close> by some script, or the \<^verbatim>\<open>onload\<close> of a pending script element, in any
  order. An exception that leaves an event handler is uncaught and the state stays as the
  handler left it. Other code only reads \<^verbatim>\<open>define._modules\<close>: the registry changes
  through \<^verbatim>\<open>define\<close> alone.
\<close>

datatype action = Define exec_context val val val | Onload nat

definition step :: "host \<Rightarrow> action \<Rightarrow> state \<Rightarrow> error option \<times> state" where
  "step h a s =
     (case a of
        Define ctx ident deps fct \<Rightarrow> define h ctx ident deps fct s
      | Onload j \<Rightarrow>
          if j < length (pending s) then
            loaded h (pending s ! j) (s\<lparr>pending := take j (pending s) @ drop (Suc j) (pending s)\<rparr>)
          else (None, s))"

definition run :: "host \<Rightarrow> action list \<Rightarrow> state \<Rightarrow> state" where
  "run h acts s = fold (\<lambda>a s. snd (step h a s)) acts s"

section \<open>Invariants of a scope\<close>

text \<open>What \<open>settle\<close> does to the scope it belongs to.\<close>

definition settle_scope :: "host \<Rightarrow> nat \<Rightarrow> string \<Rightarrow> error option \<Rightarrow> val \<Rightarrow> scope \<Rightarrow> scope" where
  "settle_scope h i d err v c =
     (let c0 = c\<lparr>settled := settled c @
                  [\<lparr>at_index = i, for_id = d, with_error = err, with_value = v\<rparr>]\<rparr> in
      if requireError c then c0
      else
        (case err of
           Some e \<Rightarrow> c0\<lparr>requireError := True, completed := completed c @ [(Some e, VUndefined)]\<rparr>
         | None \<Rightarrow>
             (let c2 = c0\<lparr>modules := arr_set (modules c) i v,
                          unresolvedDependencies := unresolvedDependencies c - 1\<rparr>
              in if unresolvedDependencies c2 = 0 then
                   (let args = arguments (modules c2);
                        c4 = c2\<lparr>applied := applied c @ [args]\<rparr>
                    in case applyFn h (factory c) args of
                         Inl e \<Rightarrow> c4
                       | Inr r \<Rightarrow> c4\<lparr>completed := completed c @ [(None, r)]\<rparr>)
                 else c2)))"

text \<open>The error of the first settlement that carries one.\<close>

fun first_error :: "settlement list \<Rightarrow> error option" where
  "first_error [] = None"
| "first_error (x # xs) = (case with_error x of Some e \<Rightarrow> Some e | None \<Rightarrow> first_error xs)"

text \<open>
  \<open>requested b dep ident\<close>: \<open>ident\<close> is what \<^verbatim>\<open>_require\<close> is asked for when the
  declared dependency is \<open>dep\<close> and the base path is \<open>b\<close>.
\<close>

definition reserved :: "string \<Rightarrow> bool" where
  "reserved d \<longleftrightarrow> d = ''exports'' \<or> d = ''require'' \<or> d = ''module''"

definition requested :: "string \<Rightarrow> string \<Rightarrow> string \<Rightarrow> bool" where
  "requested b dep ident =
     (if reserved dep then ident = dep else resolveRelativeId b dep = Inr ident)"

text \<open>
  The history of a scope agrees with its variables. With \<open>n\<close> declared dependencies: once
  a settlement has carried an error the flag is set, the factory has not been applied and
  the completion callback has been called once, with the first error; until then the counter
  is \<open>n\<close> less the settlements so far, each settled export sits in its slot, and the factory
  has been applied (once, to the slots) exactly when all \<open>n\<close> have settled.
\<close>

definition history_ok :: "scope \<Rightarrow> bool" where
  "history_ok c =
     (length (modules c) \<le> length (dependencies c) \<and>
      (case first_error (settled c) of
         Some e \<Rightarrow>
           requireError c \<and> applied c = [] \<and> completed c = [(Some e, VUndefined)]
       | None \<Rightarrow>
           \<not> requireError c \<and>
           unresolvedDependencies c = int (length (dependencies c)) - int (length (settled c)) \<and>
           list_all (\<lambda>x. at_index x < length (modules c) \<and>
                          modules c ! at_index x = Some (with_value x)) (settled c) \<and>
           (if length (settled c) = length (dependencies c) then
              applied c = [arguments (modules c)] \<and>
              length (modules c) = length (dependencies c) \<and>
              length (completed c) \<le> 1 \<and>
              list_all (\<lambda>x. fst x = None) (completed c)
            else applied c = [] \<and> completed c = [])))"

text \<open>
  Every dependency index of the scope is in use at most once, by a settlement or by one of
  the scope's scripts that are still loading (\<open>ls\<close>), and each was requested under the
  identifier its declared dependency resolves to.
\<close>

definition scope_ok :: "scope \<Rightarrow> load list \<Rightarrow> bool" where
  "scope_ok c ls =
     (distinct (map at_index (settled c) @ map load_index ls) \<and>
      list_all (\<lambda>x. at_index x < length (dependencies c) \<and>
                     requested (base c) (dependencies c ! at_index x) (for_id x)) (settled c) \<and>
      list_all (\<lambda>l. load_index l < length (dependencies c) \<and>
                     requested (base c) (dependencies c ! load_index l) (load_id l) \<and>
                     load_moduleId l = moduleId c \<and>
                     load_src l = ''components/jquery/dist/'' @ load_id l @ ''.js'') ls \<and>
      history_ok c)"

definition loads_of :: "nat \<Rightarrow> load list \<Rightarrow> load list" where
  "loads_of k ps = filter (\<lambda>l. load_scope l = k) ps"

definition invariant :: "state \<Rightarrow> bool" where
  "invariant s =
     (list_all (\<lambda>l. load_scope l < length (scopes s)) (pending s) \<and>
      list_all (\<lambda>k. scope_ok (scopes s ! k) (loads_of k (pending s))) [0..<length (scopes s)])"

text \<open>The dependency indices of scope \<open>k\<close> that a settlement or a loading script holds.\<close>

definition indices_in_use :: "nat \<Rightarrow> state \<Rightarrow> nat set" where
  "indices_in_use k s =
     set (map at_index (settled (scopes s ! k))) \<union> set (map load_index (loads_of k (pending s)))"

section \<open>The exports a factory receives\<close>

text \<open>
  \<open>available s requester ident\<close> is what \<^verbatim>\<open>_require\<close> hands to its callback at once
  when it is asked for \<open>ident\<close> in state \<open>s\<close>: the synthesized value of a reserved
  identifier, or the registered export. It is \<open>None\<close> when nothing is handed over at once:
  a script has to load first, or the request raises. \<open>export_of s requester b dep\<close> is the
  same for the declared dependency \<open>dep\<close> of a unit with base path \<open>b\<close>.
\<close>

definition available :: "state \<Rightarrow> string \<Rightarrow> string \<Rightarrow> val option" where
  "available s requester ident =
     (if ident = ''exports'' then Some (VObj [])
      else if ident = ''require'' then None
      else if ident = ''module'' then Some (VObj [(''id'', VStr requester)])
      else registry s ident)"

definition export_of :: "state \<Rightarrow> string \<Rightarrow> string \<Rightarrow> string \<Rightarrow> val option" where
  "export_of s requester b dep =
     (if reserved dep then available s requester dep
      else (case resolveRelativeId b dep of
              Inl e \<Rightarrow> None
            | Inr ident \<Rightarrow> available s requester ident))"

text \<open>
  \<open>exported cs requester ident v\<close>: \<open>v\<close> is an export of \<open>ident\<close> as far as the writes
  \<open>cs\<close> to the registry go: the synthesized value of \<^verbatim>\<open>'exports'\<close> or \<^verbatim>\<open>'module'\<close>,
  or a value that was written to the registry under \<open>ident\<close>.
\<close>

definition exported :: "(string \<times> val) list \<Rightarrow> string \<Rightarrow> string \<Rightarrow> val \<Rightarrow> bool" where
  "exported cs requester ident v =
     (if ident = ''exports'' then v = VObj []
      else if ident = ''module'' then v = VObj [(''id'', VStr requester)]
      else (ident, v) \<in> set cs)"

text \<open>The dependency at index \<open>i\<close> of the scope has settled successfully.\<close>

definition settled_ok :: "scope \<Rightarrow> nat \<Rightarrow> bool" where
  "settled_ok c i = list_ex (\<lambda>x. at_index x = i \<and> with_error x = None) (settled c)"

text \<open>
  What applying the factory \<open>f\<close> to \<open>args\<close> and passing the result on to the completion
  callback of the module \<open>ident\<close> shows to the outside: the exception that leaves the
  handler, and the registry afterwards.
\<close>

definition raised_by :: "host \<Rightarrow> fnref \<Rightarrow> val list \<Rightarrow> error option" where
  "raised_by h f args = (case applyFn h f args of Inl e \<Rightarrow> Some e | Inr r \<Rightarrow> None)"

definition registry_after ::
  "host \<Rightarrow> fnref \<Rightarrow> val list \<Rightarrow> string \<Rightarrow> (string \<rightharpoonup> val) \<Rightarrow> (string \<rightharpoonup> val)" where
  "registry_after h f args ident reg =
     (case applyFn h f args of Inl e \<Rightarrow> reg | Inr r \<Rightarrow> reg(ident \<mapsto> r))"

text \<open>What a call of \<open>settle\<close> on the scope \<open>c\<close> commits, if anything.\<close>

definition settle_commit :: "host \<Rightarrow> nat \<Rightarrow> error option \<Rightarrow> val \<Rightarrow> scope \<Rightarrow> val option" where
  "settle_commit h i err v c =
     (if requireError c \<or> err \<noteq> None \<or> unresolvedDependencies c - 1 \<noteq> 0 then None
      else (case applyFn h (factory c) (arguments (arr_set (modules c) i v)) of
              Inl e \<Rightarrow> None
            | Inr r \<Rightarrow> Some r))"

text \<open>
  The registry is what its writes make it; no script loads for a reserved identifier; every
  successfully settled value is an export of the identifier it was requested under; and the
  completion callback has been handed exactly the results the factory returned, each of
  which was written to the registry.
\<close>

definition scope_ledger :: "host \<Rightarrow> (string \<times> val) list \<Rightarrow> scope \<Rightarrow> bool" where
  "scope_ledger h cs c =
     (list_all (\<lambda>x. with_error x \<noteq> None \<or>
                     exported cs (moduleId c) (for_id x) (with_value x)) (settled c) \<and>
      list_all (\<lambda>args. case applyFn h (factory c) args of
                          Inl e \<Rightarrow> True
                        | Inr r \<Rightarrow> (None, r) \<in> set (completed c) \<and> (moduleId c, r) \<in> set cs)
        (applied c) \<and>
      list_all (\<lambda>p. fst p \<noteq> None \<or>
                     list_ex (\<lambda>args. applyFn h (factory c) args = Inr (snd p)) (applied c))
        (completed c))"

definition ledger :: "host \<Rightarrow> state \<Rightarrow> bool" where
  "ledger h s =
     (registry s = map_of (rev (commits s)) \<and>
      list_all (\<lambda>l. \<not> reserved (load_id l)) (pending s) \<and>
      list_all (scope_ledger h (commits s)) (scopes s))"

section \<open>Example hosts and documents\<close>

text \<open>
  A host whose every function returns an object that names the function and lists the
  arguments it was applied to, and a host whose every function returns \<^verbatim>\<open>undefined\<close>.
  The examples use no \<^verbatim>\<open>src\<close> attribute, so neither host resolves URLs.
\<close>

definition collect_host :: host where
  "collect_host =
     \<lparr>applyFn = (\<lambda>f args. Inr (VObj ((''factory'', VNum (int f)) # map (Pair ''arg'') args))),
      newURL = (\<lambda>src b. None)\<rparr>"

definition void_host :: host where
  "void_host = \<lparr>applyFn = (\<lambda>f args. Inr VUndefined), newURL = (\<lambda>src b. None)\<rparr>"

text \<open>
  An inline script of the document at \<open>loc\<close>, the same script carrying the attribute
  \<^verbatim>\<open>as\<close> with value \<open>a\<close>, and an inline script of a document that has no
  \<^verbatim>\<open>baseURI\<close>.
\<close>

definition page :: "string \<Rightarrow> exec_context" where
  "page loc =
     \<lparr>currentScript = Some \<lparr>attr_as = None, attr_src = None, ownerDocument = None\<rparr>,
      global_document = \<lparr>baseURI = Some loc\<rparr>\<rparr>"

definition aliased :: "string \<Rightarrow> string \<Rightarrow> exec_context" where
  "aliased a loc =
     \<lparr>currentScript = Some \<lparr>attr_as = Some a, attr_src = None, ownerDocument = None\<rparr>,
      global_document = \<lparr>baseURI = Some loc\<rparr>\<rparr>"

definition no_base :: exec_context where
  "no_base =
     \<lparr>currentScript = Some \<lparr>attr_as = None, attr_src = None, ownerDocument = None\<rparr>,
      global_document = \<lparr>baseURI = None\<rparr>\<rparr>"

text \<open>
  Six runs. In each, the document at \<^verbatim>\<open>http://x.com/a/b.html\<close> defines \<open>m\<close>.

  \<open>sibling_failure_run\<close>: \<open>m\<close> depends on \<^verbatim>\<open>./x\<close> and \<^verbatim>\<open>./y\<close>; \<open>x\<close> gets
  defined, \<open>y\<close> never; the script of \<open>y\<close> finishes loading first, that of \<open>x\<close> after.

  \<open>out_of_order_run\<close>: both get defined; the script of \<open>y\<close>, declared second, finishes
  loading first.

  \<open>double_define_run\<close>: \<open>m\<close> is defined a second time while its dependency \<open>x\<close> is
  still loading.

  \<open>empty_export_run\<close>: the dependency \<open>x\<close> is defined by a factory that returns
  \<^verbatim>\<open>undefined\<close> before its script's \<^verbatim>\<open>onload\<close> fires.

  \<open>two_errors_run\<close>: \<open>m\<close> depends on \<open>x\<close> and \<^verbatim>\<open>'require'\<close>; \<open>x\<close> is never
  defined and its script finishes loading.

  \<open>registered_run\<close>: \<open>x\<close> and \<open>y\<close> are defined first; then \<open>m\<close> declares
  \<^verbatim>\<open>./y\<close>, \<^verbatim>\<open>module\<close> and \<^verbatim>\<open>./x\<close>.
\<close>

definition sibling_failure_run :: "action list" where
  "sibling_failure_run =
     [Define (page ''http://x.com/a/b.html'') (VStr ''m'') (VArr [''./x'', ''./y'']) (VFun 0),
      Define (page ''http://x.com/a/x.html'') (VStr ''http://x.com/a/x'') (VStr ''X'') VUndefined,
      Onload 1,
      Onload 0]"

definition out_of_order_run :: "action list" where
  "out_of_order_run =
     [Define (page ''http://x.com/a/b.html'') (VStr ''m'') (VArr [''./x'', ''./y'']) (VFun 0),
      Define (page ''http://x.com/a/x.html'') (VStr ''http://x.com/a/x'') (VStr ''X'') VUndefined,
      Define (page ''http://x.com/a/y.html'') (VStr ''http://x.com/a/y'') (VStr ''Y'') VUndefined,
      Onload 1,
      Onload 0]"

definition double_define_run :: "action list" where
  "double_define_run =
     [Define (page ''http://x.com/a/b.html'') (VStr ''m'') (VArr [''x'']) (VFun 0),
      Define (page ''http://x.com/a/b.html'') (VStr ''m'') (VArr [''x'']) (VFun 1),
      Define (page ''http://x.com/a/x.html'') (VStr ''x'') (VNum 7) VUndefined,
      Onload 0,
      Onload 0]"

definition empty_export_run :: "action list" where
  "empty_export_run =
     [Define (page ''http://x.com/a/b.html'') (VStr ''m'') (VArr [''x'']) (VFun 0),
      Define (page ''http://x.com/a/x.html'') (VStr ''x'') (VArr []) (VFun 1),
      Onload 0]"

definition two_errors_run :: "action list" where
  "two_errors_run =
     [Define (page ''http://x.com/a/b.html'') (VStr ''m'') (VArr [''x'', ''require'']) (VFun 0),
      Onload 0]"

definition registered_run :: "action list" where
  "registered_run =
     [Define (page ''http://x.com/a/x.html'') (VStr ''http://x.com/a/x'') (VStr ''X'') VUndefined,
      Define (page ''http://x.com/a/y.html'') (VStr ''http://x.com/a/y'') (VStr ''Y'') VUndefined,
      Define (page ''http://x.com/a/b.html'') (VStr ''m'') (VArr [''./y'', ''module'', ''./x''])
        (VFun 0)]"

text \<open>
  Following the words of the specification: everything up to and including the final path
  separator.
\<close>

definition upto_final_slash :: "string \<Rightarrow> string" where
  "upto_final_slash s = rev (dropWhile (\<lambda>c. c \<noteq> slash) (rev s))"

section \<open>Evaluation\<close>

lemmas regex_defs = slash_def backslash_def line_terminator_def dirname_def authority_def
  base_match_def id_match_def resolveRelativeId_def

lemmas loader_defs = js_or_def inferModuleId_def init_def upd_scope_def arr_set_def arguments_def
  define_callback_def settle_def loadScript_def require_def not_loaded_def loaded_def
  requestDependency_def new_scope_def runFactory_def already_defined_def invalid_identifier_def
  effective_dependencies_def effective_id_def define_def step_def run_def

section \<open>The invariant holds in every reachable state\<close>

lemma first_error_append:
  "first_error (xs @ [x]) = (case first_error xs of Some e \<Rightarrow> Some e | None \<Rightarrow> with_error x)"
  by (induction xs) (auto split: option.splits)

lemma distinct_bounded_length:
  assumes "distinct xs" and "\<forall>x\<in>set xs. x < (n::nat)"
  shows "length xs \<le> n"
proof -
  have "set xs \<subseteq> {..<n}" using assms(2) by auto
  then have "card (set xs) \<le> card {..<n}" by (intro card_mono) auto
  then show ?thesis using assms(1) by (simp add: distinct_card)
qed

lemma fresh_bounded_length:
  assumes "distinct xs" and "\<forall>x\<in>set xs. x < (n::nat)" and "i \<notin> set xs" and "i < n"
  shows "length xs < n"
proof -
  have "length (i # xs) \<le> n"
    by (rule distinct_bounded_length) (use assms in auto)
  then show ?thesis by simp
qed

lemma full_bounded_set:
  assumes "distinct xs" and "\<forall>x\<in>set xs. x < (n::nat)" and "length xs = n"
  shows "set xs = {..<n}"
proof -
  have sub: "set xs \<subseteq> {..<n}" using assms(2) by auto
  have "card (set xs) = card {..<n}" using assms(1,3) by (simp add: distinct_card)
  with sub show ?thesis by (intro card_subset_eq) auto
qed

lemma length_arr_set: "length (arr_set xs i v) = max (length xs) (Suc i)"
  by (simp add: arr_set_def)

lemma nth_arr_set_same: "arr_set xs i v ! i = Some v"
  by (simp add: arr_set_def)

lemma nth_arr_set_other: "j \<noteq> i \<Longrightarrow> j < length xs \<Longrightarrow> arr_set xs i v ! j = xs ! j"
  by (simp add: arr_set_def nth_append)

lemma settle_scopes:
  "k < length (scopes s) \<Longrightarrow>
   scopes (snd (settle h k d i e v s)) = (scopes s)[k := settle_scope h i d e v (scopes s ! k)]"
  by (simp add: settle_def settle_scope_def upd_scope_def define_callback_def Let_def
           split: option.splits sum.splits)

lemma settle_pending: "pending (snd (settle h k d i e v s)) = pending s"
  by (simp add: settle_def upd_scope_def define_callback_def Let_def
           split: option.splits sum.splits)

lemma settle_scope_frame:
  "settled (settle_scope h i d e v c) =
     settled c @ [\<lparr>at_index = i, for_id = d, with_error = e, with_value = v\<rparr>]"
  "dependencies (settle_scope h i d e v c) = dependencies c"
  "base (settle_scope h i d e v c) = base c"
  "moduleId (settle_scope h i d e v c) = moduleId c"
  "factory (settle_scope h i d e v c) = factory c"
  by (simp_all add: settle_scope_def Let_def split: option.splits sum.splits)


lemma history_ok_settle_scope:
  assumes hist: "history_ok c"
    and dist: "distinct (map at_index (settled c))"
    and bound: "\<forall>x\<in>set (settled c). at_index x < length (dependencies c)"
    and fresh: "i \<notin> set (map at_index (settled c))"
    and i: "i < length (dependencies c)"
  shows "history_ok (settle_scope h i d e v c)"
proof -
  let ?n = "length (dependencies c)"
  have less: "length (settled c) < ?n"
    using fresh_bounded_length [of "map at_index (settled c)" ?n i] dist bound fresh i by auto
  show ?thesis
  proof (cases "first_error (settled c)")
    case (Some e0)
    then have "requireError c" using hist by (simp add: history_ok_def)
    then show ?thesis
      using hist Some by (simp add: history_ok_def settle_scope_def first_error_append)
  next
    case None
    then have flag: "\<not> requireError c"
      and cnt: "unresolvedDependencies c = int ?n - int (length (settled c))"
      and slots: "list_all (\<lambda>x. at_index x < length (modules c) \<and>
                     modules c ! at_index x = Some (with_value x)) (settled c)"
      and idle: "applied c = []" "completed c = []"
      and len: "length (modules c) \<le> ?n"
      using hist less by (simp_all add: history_ok_def)
    show ?thesis
    proof (cases e)
      case (Some e1)
      then show ?thesis
        using flag idle len None
        by (simp add: history_ok_def settle_scope_def first_error_append)
    next
      case noerr: None
      let ?m = "arr_set (modules c) i v"
      have len': "length ?m \<le> ?n" using len i by (simp add: length_arr_set)
      have slots': "list_all (\<lambda>x. at_index x < length ?m \<and> ?m ! at_index x = Some (with_value x))
                      (settled c)"
        unfolding list_all_iff
      proof
        fix x assume x: "x \<in> set (settled c)"
        then have a: "at_index x < length (modules c)" "modules c ! at_index x = Some (with_value x)"
          using slots by (auto simp: list_all_iff)
        have "at_index x \<noteq> i" using x fresh by auto
        then show "at_index x < length ?m \<and> ?m ! at_index x = Some (with_value x)"
          using a by (simp add: length_arr_set nth_arr_set_other)
      qed
      have new: "i < length ?m" "?m ! i = Some v"
        by (simp_all add: length_arr_set nth_arr_set_same)
      show ?thesis
      proof (cases "Suc (length (settled c)) = ?n")
        case True
        have d': "distinct (map at_index (settled c) @ [i])" using dist fresh by simp
        have "set (map at_index (settled c) @ [i]) = {..<?n}"
          by (rule full_bounded_set [OF d']) (use bound i True in auto)
        then have "?n - 1 \<in> set (map at_index (settled c) @ [i])" using i by auto
        then have "?n - 1 < length ?m" using slots' new(1) by (auto simp: list_all_iff)
        then have full: "length ?m = ?n" using len' by simp
        show ?thesis
          using flag noerr None cnt True idle slots' new full
          by (simp add: history_ok_def settle_scope_def first_error_append Let_def
                   split: sum.splits)
      next
        case False
        then show ?thesis
          using flag noerr None cnt idle slots' new len' less
          by (simp add: history_ok_def settle_scope_def first_error_append Let_def)
      qed
    qed
  qed
qed


lemma scope_ok_settle_fresh:
  assumes ok: "scope_ok c ls"
    and i: "i < length (dependencies c)"
    and fresh: "i \<notin> set (map at_index (settled c))" "i \<notin> set (map load_index ls)"
    and req: "requested (base c) (dependencies c ! i) d"
  shows "scope_ok (settle_scope h i d e v c) ls"
proof -
  have hist: "history_ok (settle_scope h i d e v c)"
    by (rule history_ok_settle_scope) (use ok i fresh in \<open>auto simp: scope_ok_def list_all_iff\<close>)
  show ?thesis
    using ok i fresh req hist
    by (auto simp: scope_ok_def settle_scope_frame list_all_iff)
qed

lemma scope_ok_remove:
  assumes "scope_ok c (ls1 @ l # ls2)"
  shows "scope_ok c (ls1 @ ls2)"
    and "load_index l < length (dependencies c)"
    and "load_index l \<notin> set (map at_index (settled c))"
    and "load_index l \<notin> set (map load_index (ls1 @ ls2))"
    and "requested (base c) (dependencies c ! load_index l) (load_id l)"
  using assms by (auto simp: scope_ok_def)

lemma scope_ok_settle_loaded:
  assumes "scope_ok c (ls1 @ l # ls2)"
  shows "scope_ok (settle_scope h (load_index l) (load_id l) e v c) (ls1 @ ls2)"
  using scope_ok_remove [OF assms] by (intro scope_ok_settle_fresh) auto

lemma scope_ok_add_load:
  assumes ok: "scope_ok c ls"
    and i: "i < length (dependencies c)"
    and fresh: "i \<notin> set (map at_index (settled c))" "i \<notin> set (map load_index ls)"
    and req: "requested (base c) (dependencies c ! i) ident"
  shows "scope_ok c (ls @ [\<lparr>load_src = ''components/jquery/dist/'' @ ident @ ''.js'',
            load_id = ident, load_moduleId = moduleId c, load_scope = k, load_index = i\<rparr>])"
  using assms by (auto simp: scope_ok_def)

lemma invariant_iff:
  "invariant s \<longleftrightarrow>
     (\<forall>l\<in>set (pending s). load_scope l < length (scopes s)) \<and>
     (\<forall>k<length (scopes s). scope_ok (scopes s ! k) (loads_of k (pending s)))"
  by (auto simp: invariant_def list_all_iff)


lemma settle_invariant:
  assumes inv: "invariant s"
    and k: "k < length (scopes s)"
    and i: "i < length (dependencies (scopes s ! k))"
    and fresh: "i \<notin> indices_in_use k s"
    and req: "requested (base (scopes s ! k)) (dependencies (scopes s ! k) ! i) d"
  shows "invariant (snd (settle h k d i e v s))"
proof -
  let ?s' = "snd (settle h k d i e v s)"
  let ?c' = "settle_scope h i d e v (scopes s ! k)"
  have sc: "scopes ?s' = (scopes s)[k := ?c']" by (rule settle_scopes [OF k])
  have pe: "pending ?s' = pending s" by (rule settle_pending)
  have "scope_ok (scopes ?s' ! k') (loads_of k' (pending ?s'))" if k': "k' < length (scopes s)" for k'
  proof (cases "k' = k")
    case True
    have "scope_ok ?c' (loads_of k (pending s))"
      by (rule scope_ok_settle_fresh)
         (use inv k i fresh req in \<open>auto simp: invariant_iff indices_in_use_def\<close>)
    then show ?thesis using True k by (simp add: sc pe)
  next
    case False
    then show ?thesis using inv k' by (simp add: sc pe invariant_iff)
  qed
  then show ?thesis using inv by (simp add: invariant_iff sc pe)
qed

lemma settle_frame:
  assumes k: "k < length (scopes s)"
  shows "length (scopes (snd (settle h k d i e v s))) = length (scopes s)"
    and "dependencies (scopes (snd (settle h k d i e v s)) ! k) = dependencies (scopes s ! k)"
    and "base (scopes (snd (settle h k d i e v s)) ! k) = base (scopes s ! k)"
    and "moduleId (scopes (snd (settle h k d i e v s)) ! k) = moduleId (scopes s ! k)"
    and "indices_in_use k (snd (settle h k d i e v s)) = insert i (indices_in_use k s)"
  using k by (auto simp: settle_scopes settle_pending settle_scope_frame indices_in_use_def)

lemma loads_of_append: "loads_of k (ps @ qs) = loads_of k ps @ loads_of k qs"
  by (simp add: loads_of_def)

lemma loadScript_invariant:
  assumes inv: "invariant s"
    and k: "k < length (scopes s)"
    and i: "i < length (dependencies (scopes s ! k))"
    and fresh: "i \<notin> indices_in_use k s"
    and req: "requested (base (scopes s ! k)) (dependencies (scopes s ! k) ! i) ident"
  shows "invariant (loadScript (''components/jquery/dist/'' @ ident @ ''.js'') ident
                      (moduleId (scopes s ! k)) k i s)"
proof -
  let ?l = "\<lparr>load_src = ''components/jquery/dist/'' @ ident @ ''.js'', load_id = ident,
             load_moduleId = moduleId (scopes s ! k), load_scope = k, load_index = i\<rparr>"
  have "scope_ok (scopes s ! k') (loads_of k' (pending s @ [?l]))" if k': "k' < length (scopes s)" for k'
  proof (cases "k' = k")
    case True
    have "scope_ok (scopes s ! k) (loads_of k (pending s) @ [?l])"
      by (rule scope_ok_add_load)
         (use inv k i fresh req in \<open>auto simp: invariant_iff indices_in_use_def\<close>)
    then show ?thesis using True by (simp add: loads_of_append) (simp add: loads_of_def)
  next
    case False
    then show ?thesis using inv k' by (simp add: loads_of_append invariant_iff) (simp add: loads_of_def)
  qed
  then show ?thesis using inv k by (simp add: invariant_iff loadScript_def)
qed

lemma loadScript_frame:
  "scopes (loadScript src ident m k i s) = scopes s"
  "indices_in_use k (loadScript src ident m k i s) = insert i (indices_in_use k s)"
  by (auto simp: loadScript_def indices_in_use_def loads_of_def)

lemma require_outcomes:
  "snd (require h ident m k i s) = s \<or>
   (\<exists>v. require h ident m k i s = settle h k ident i None v s) \<or>
   snd (require h ident m k i s) =
     loadScript (''components/jquery/dist/'' @ ident @ ''.js'') ident m k i s"
  unfolding require_def
  by (cases "registry s ident"; cases "ident = ''exports''"; cases "ident = ''require''";
      cases "ident = ''module''") (simp_all, blast+)

lemma require_cases:
  obtains (typo) "snd (require h ident m k i s) = s"
  | (sync) v where "require h ident m k i s = settle h k ident i None v s"
  | (async) "snd (require h ident m k i s) =
       loadScript (''components/jquery/dist/'' @ ident @ ''.js'') ident m k i s"
  using require_outcomes [of h ident m k i s] by blast

lemma require_invariant:
  assumes inv: "invariant s"
    and k: "k < length (scopes s)"
    and i: "i < length (dependencies (scopes s ! k))"
    and fresh: "i \<notin> indices_in_use k s"
    and req: "requested (base (scopes s ! k)) (dependencies (scopes s ! k) ! i) ident"
  shows "invariant (snd (require h ident (moduleId (scopes s ! k)) k i s))"
proof (cases h ident "moduleId (scopes s ! k)" k i s rule: require_cases)
  case typo
  then show ?thesis using inv by simp
next
  case (sync v)
  then show ?thesis using settle_invariant [OF assms] by simp
next
  case async
  then show ?thesis using loadScript_invariant [OF assms] by simp
qed

lemma require_frame:
  assumes k: "k < length (scopes s)"
  shows "length (scopes (snd (require h ident m k i s))) = length (scopes s) \<and>
         dependencies (scopes (snd (require h ident m k i s)) ! k) = dependencies (scopes s ! k) \<and>
         base (scopes (snd (require h ident m k i s)) ! k) = base (scopes s ! k) \<and>
         moduleId (scopes (snd (require h ident m k i s)) ! k) = moduleId (scopes s ! k) \<and>
         indices_in_use k (snd (require h ident m k i s)) \<subseteq> insert i (indices_in_use k s)"
proof (cases h ident m k i s rule: require_cases)
  case typo
  then show ?thesis by auto
next
  case (sync v)
  then show ?thesis using settle_frame [OF k, of h ident i None v] by simp
next
  case async
  then show ?thesis by (simp add: loadScript_frame)
qed


lemma requestDependency_outcomes:
  "snd (requestDependency h k b m d i s) = s \<or>
   (\<exists>ident. requested b d ident \<and> requestDependency h k b m d i s = require h ident m k i s)"
proof (cases "reserved d")
  case True
  then have "requestDependency h k b m d i s = require h d m k i s"
    unfolding requestDependency_def reserved_def by presburger
  then show ?thesis using True by (auto simp: requested_def)
next
  case False
  then have eq: "requestDependency h k b m d i s =
      (case resolveRelativeId b d of
         Inl e \<Rightarrow> (Some e, s)
       | Inr resolved \<Rightarrow> require h resolved m k i s)"
    unfolding requestDependency_def reserved_def by presburger
  show ?thesis
  proof (cases "resolveRelativeId b d")
    case (Inl e)
    then show ?thesis using eq by simp
  next
    case (Inr r)
    then show ?thesis using eq False by (auto simp: requested_def)
  qed
qed

lemma requestDependency_invariant:
  assumes inv: "invariant s"
    and k: "k < length (scopes s)"
    and i: "i < length (dependencies (scopes s ! k))"
    and fresh: "i \<notin> indices_in_use k s"
  shows "invariant (snd (requestDependency h k (base (scopes s ! k)) (moduleId (scopes s ! k))
                           (dependencies (scopes s ! k) ! i) i s))"
  using requestDependency_outcomes [of h k "base (scopes s ! k)" "moduleId (scopes s ! k)"
          "dependencies (scopes s ! k) ! i" i s]
        require_invariant [OF inv k i fresh] inv
  by auto

lemma requestDependency_frame:
  assumes k: "k < length (scopes s)"
  shows "length (scopes (snd (requestDependency h k b m d i s))) = length (scopes s) \<and>
         dependencies (scopes (snd (requestDependency h k b m d i s)) ! k) = dependencies (scopes s ! k) \<and>
         base (scopes (snd (requestDependency h k b m d i s)) ! k) = base (scopes s ! k) \<and>
         moduleId (scopes (snd (requestDependency h k b m d i s)) ! k) = moduleId (scopes s ! k) \<and>
         indices_in_use k (snd (requestDependency h k b m d i s)) \<subseteq> insert i (indices_in_use k s)"
proof -
  consider "snd (requestDependency h k b m d i s) = s"
    | ident where "requestDependency h k b m d i s = require h ident m k i s"
    using requestDependency_outcomes [of h k b m d i s] by blast
  then show ?thesis
  proof cases
    case 1
    then show ?thesis by auto
  next
    case (2 ident)
    then show ?thesis using require_frame [OF k, of h ident m i] by simp
  qed
qed

lemma forEach_invariant:
  assumes "invariant s"
    and "k < length (scopes s)"
    and "drop i (dependencies (scopes s ! k)) = ds"
    and "b = base (scopes s ! k)"
    and "m = moduleId (scopes s ! k)"
    and "\<forall>j\<in>indices_in_use k s. j < i"
  shows "invariant (snd (forEach h k b m ds i s))"
  using assms
proof (induction ds arbitrary: i s)
  case Nil
  then show ?case by simp
next
  case (Cons d ds)
  let ?c = "scopes s ! k"
  let ?r = "requestDependency h k b m d i s"
  have i: "i < length (dependencies ?c)"
    using Cons.prems(3) by (cases "i < length (dependencies ?c)") auto
  have d: "d = dependencies ?c ! i"
    using Cons.prems(3) i by (metis Cons_nth_drop_Suc list.inject)
  have rest: "drop (Suc i) (dependencies ?c) = ds"
    using Cons.prems(3) i by (metis Cons_nth_drop_Suc list.inject)
  have fresh: "i \<notin> indices_in_use k s" using Cons.prems(6) by auto
  have inv': "invariant (snd ?r)"
    using requestDependency_invariant [OF Cons.prems(1,2) i fresh, of h] Cons.prems(4,5) d
    by simp
  note fr = requestDependency_frame [OF Cons.prems(2), of h b m d i]
  show ?case
  proof (cases "fst ?r")
    case (Some e)
    then show ?thesis using inv' by (simp add: case_prod_unfold)
  next
    case None
    have "invariant (snd (forEach h k b m ds (Suc i) (snd ?r)))"
    proof (rule Cons.IH [OF inv'])
      show "k < length (scopes (snd ?r))" using fr Cons.prems(2) by simp
      show "drop (Suc i) (dependencies (scopes (snd ?r) ! k)) = ds" using fr rest by simp
      show "b = base (scopes (snd ?r) ! k)" using fr Cons.prems(4) by simp
      show "m = moduleId (scopes (snd ?r) ! k)" using fr Cons.prems(5) by simp
      show "\<forall>j\<in>indices_in_use k (snd ?r). j < Suc i"
        using fr Cons.prems(6) by (auto simp: less_Suc_eq)
    qed
    then show ?thesis using None by (simp add: case_prod_unfold)
  qed
qed


lemma invariant_cong:
  "scopes s' = scopes s \<Longrightarrow> pending s' = pending s \<Longrightarrow> invariant s' = invariant s"
  by (simp add: invariant_def)

lemma define_callback_frame:
  "scopes (snd (define_callback ident e v s)) = scopes s"
  "pending (snd (define_callback ident e v s)) = pending s"
  by (simp_all add: define_callback_def split: option.splits)

lemma invariant_append_scope:
  assumes inv: "invariant s" and ok: "scope_ok c []"
  shows "invariant (s\<lparr>scopes := scopes s @ [c]\<rparr>)"
proof -
  have none: "loads_of (length (scopes s)) (pending s) = []"
    using inv by (auto simp: invariant_iff loads_of_def filter_empty_conv)
  have "scope_ok ((scopes s @ [c]) ! k) (loads_of k (pending s))"
    if "k < Suc (length (scopes s))" for k
  proof (cases "k < length (scopes s)")
    case True
    then show ?thesis using inv by (simp add: nth_append invariant_iff)
  next
    case False
    then have "k = length (scopes s)" using that by simp
    then show ?thesis using ok none by simp
  qed
  then show ?thesis using inv by (auto simp: invariant_iff less_Suc_eq)
qed

lemma scope_ok_new_scope:
  "deps \<noteq> [] \<Longrightarrow> scope_ok (new_scope ident b deps f) []"
  by (simp add: scope_ok_def history_ok_def new_scope_def)

lemma scope_ok_applied_scope:
  "length cs \<le> 1 \<Longrightarrow> list_all (\<lambda>x. fst x = None) cs \<Longrightarrow>
   scope_ok ((new_scope ident b [] f)\<lparr>applied := [[]], completed := cs\<rparr>) []"
  by (simp add: scope_ok_def history_ok_def new_scope_def arguments_def)

lemma runFactory_no_dependencies:
  "\<exists>cs. length cs \<le> 1 \<and> list_all (\<lambda>x. fst x = None) cs \<and>
     scopes (snd (runFactory h ident b [] (VFun f) s)) =
       scopes s @ [(new_scope ident b [] f)\<lparr>applied := [[]], completed := cs\<rparr>] \<and>
     pending (snd (runFactory h ident b [] (VFun f) s)) = pending s"
proof (cases "applyFn h f []")
  case (Inl e)
  then have "scopes (snd (runFactory h ident b [] (VFun f) s)) =
       scopes s @ [(new_scope ident b [] f)\<lparr>applied := [[]], completed := []\<rparr>] \<and>
     pending (snd (runFactory h ident b [] (VFun f) s)) = pending s"
    by (simp add: runFactory_def new_scope_def upd_scope_def arguments_def Let_def)
  then show ?thesis by (intro exI [of _ "[]"]) simp
next
  case (Inr v)
  then have "scopes (snd (runFactory h ident b [] (VFun f) s)) =
       scopes s @ [(new_scope ident b [] f)\<lparr>applied := [[]], completed := [(None, v)]\<rparr>] \<and>
     pending (snd (runFactory h ident b [] (VFun f) s)) = pending s"
    by (simp add: runFactory_def new_scope_def upd_scope_def arguments_def Let_def
          define_callback_def)
  then show ?thesis by (intro exI [of _ "[(None, v)]"]) simp
qed

lemma runFactory_dependencies:
  "deps \<noteq> [] \<Longrightarrow>
   runFactory h ident b deps (VFun f) s =
     forEach h (length (scopes s)) b ident deps 0
       (s\<lparr>scopes := scopes s @ [new_scope ident b deps f]\<rparr>)"
  by (simp add: runFactory_def new_scope_def Let_def)

lemma runFactory_value:
  "\<forall>f. fct \<noteq> VFun f \<Longrightarrow> runFactory h ident b deps fct s = define_callback ident None fct s"
  by (cases fct) (simp_all add: runFactory_def)

lemma runFactory_invariant:
  assumes inv: "invariant s"
  shows "invariant (snd (runFactory h ident b deps fct s))"
proof (cases "\<exists>f. fct = VFun f")
  case False
  then have "runFactory h ident b deps fct s = define_callback ident None fct s"
    by (intro runFactory_value) simp
  then show ?thesis using inv by (simp add: invariant_cong [OF define_callback_frame])
next
  case True
  then obtain f where f: "fct = VFun f" by blast
  show ?thesis
  proof (cases "deps = []")
    case True
    obtain cs where cs: "length cs \<le> 1" "list_all (\<lambda>x. fst x = None) cs"
      and sc: "scopes (snd (runFactory h ident b [] (VFun f) s)) =
                 scopes s @ [(new_scope ident b [] f)\<lparr>applied := [[]], completed := cs\<rparr>]"
      and pe: "pending (snd (runFactory h ident b [] (VFun f) s)) = pending s"
      using runFactory_no_dependencies [of h ident b f s] by blast
    let ?s' = "s\<lparr>scopes := scopes s @ [(new_scope ident b [] f)\<lparr>applied := [[]], completed := cs\<rparr>]\<rparr>"
    have "invariant ?s'"
      by (rule invariant_append_scope [OF inv scope_ok_applied_scope [OF cs]])
    moreover have "invariant (snd (runFactory h ident b [] (VFun f) s)) = invariant ?s'"
      by (rule invariant_cong) (simp_all add: sc pe)
    ultimately show ?thesis using True f by simp
  next
    case False
    let ?k = "length (scopes s)"
    let ?s1 = "s\<lparr>scopes := scopes s @ [new_scope ident b deps f]\<rparr>"
    have inv1: "invariant ?s1"
      by (rule invariant_append_scope [OF inv scope_ok_new_scope [OF False]])
    have none: "loads_of ?k (pending s) = []"
      using inv by (auto simp: invariant_iff loads_of_def filter_empty_conv)
    have "invariant (snd (forEach h ?k b ident deps 0 ?s1))"
    proof (rule forEach_invariant [OF inv1])
      show "?k < length (scopes ?s1)" by simp
      show "drop 0 (dependencies (scopes ?s1 ! ?k)) = deps" by (simp add: new_scope_def)
      show "b = base (scopes ?s1 ! ?k)" by (simp add: new_scope_def)
      show "ident = moduleId (scopes ?s1 ! ?k)" by (simp add: new_scope_def)
      show "\<forall>j\<in>indices_in_use ?k ?s1. j < 0"
        using none by (simp add: indices_in_use_def new_scope_def)
    qed
    then show ?thesis using f False by (simp add: runFactory_dependencies)
  qed
qed

lemma define_outcomes:
  "snd (define h ctx ident deps fct s) = s \<or>
   (\<exists>ident' b deps' fct'. define h ctx ident deps fct s = runFactory h ident' b deps' fct' s)"
  by (auto simp: define_def Let_def split: sum.splits option.splits)

lemma define_invariant:
  "invariant s \<Longrightarrow> invariant (snd (define h ctx ident deps fct s))"
  using define_outcomes [of h ctx ident deps fct s] runFactory_invariant [of s h]
  by auto


lemma loaded_outcomes:
  "\<exists>e v. loaded h l s = settle h (load_scope l) (load_id l) (load_index l) e v s"
  by (cases "truthy (case registry s (load_id l) of None \<Rightarrow> VUndefined | Some v \<Rightarrow> v)")
     (auto simp: loaded_def Let_def)

lemma onload_invariant:
  assumes inv: "invariant s" and j: "j < length (pending s)"
  shows "invariant (snd (settle h (load_scope (pending s ! j)) (load_id (pending s ! j))
           (load_index (pending s ! j)) e v
           (s\<lparr>pending := take j (pending s) @ drop (Suc j) (pending s)\<rparr>)))"
proof -
  let ?ps = "pending s"
  let ?l = "?ps ! j"
  let ?k = "load_scope ?l"
  let ?rm = "s\<lparr>pending := take j ?ps @ drop (Suc j) ?ps\<rparr>"
  let ?s' = "snd (settle h ?k (load_id ?l) (load_index ?l) e v ?rm)"
  let ?c' = "settle_scope h (load_index ?l) (load_id ?l) e v (scopes s ! ?k)"
  have split: "?ps = take j ?ps @ ?l # drop (Suc j) ?ps"
    using j by (simp add: id_take_nth_drop [symmetric])
  have k: "?k < length (scopes s)" using inv j by (simp add: invariant_iff)
  have sc: "scopes ?s' = (scopes s)[?k := ?c']" using settle_scopes [of ?k ?rm] k by simp
  have pe: "pending ?s' = take j ?ps @ drop (Suc j) ?ps" by (simp add: settle_pending)
  have lo: "loads_of k' ?ps =
      loads_of k' (take j ?ps) @ (if load_scope ?l = k' then [?l] else []) @ loads_of k' (drop (Suc j) ?ps)"
    for k'
    by (subst split) (simp add: loads_of_def)
  have "scope_ok (scopes ?s' ! k') (loads_of k' (pending ?s'))" if k': "k' < length (scopes s)" for k'
  proof (cases "k' = ?k")
    case True
    have "scope_ok (scopes s ! ?k) (loads_of ?k ?ps)"
      using inv k by (simp add: invariant_iff)
    moreover have "loads_of ?k ?ps =
        loads_of ?k (take j ?ps) @ ?l # loads_of ?k (drop (Suc j) ?ps)"
      using lo [of ?k] by simp
    ultimately
    have "scope_ok (scopes s ! ?k) (loads_of ?k (take j ?ps) @ ?l # loads_of ?k (drop (Suc j) ?ps))"
      by metis
    then have "scope_ok ?c' (loads_of ?k (take j ?ps) @ loads_of ?k (drop (Suc j) ?ps))"
      by (rule scope_ok_settle_loaded)
    then show ?thesis using True k by (simp add: sc pe loads_of_append)
  next
    case False
    then have "loads_of k' (pending ?s') = loads_of k' ?ps"
      using lo [of k'] by (simp add: pe loads_of_append)
    then show ?thesis using False inv k' by (simp add: sc invariant_iff)
  qed
  moreover have "\<forall>l\<in>set (pending ?s'). load_scope l < length (scopes ?s')"
  proof
    fix l assume "l \<in> set (pending ?s')"
    then have "l \<in> set ?ps" unfolding pe by (auto dest: in_set_takeD in_set_dropD)
    then show "load_scope l < length (scopes ?s')" using inv by (simp add: sc invariant_iff)
  qed
  ultimately show ?thesis by (simp add: invariant_iff sc)
qed

lemma step_invariant: "invariant s \<Longrightarrow> invariant (snd (step h a s))"
proof (cases a)
  case (Define ctx ident deps fct)
  assume "invariant s"
  then show ?thesis using Define by (simp add: step_def define_invariant)
next
  case (Onload j)
  assume inv: "invariant s"
  show ?thesis
  proof (cases "j < length (pending s)")
    case True
    let ?rm = "s\<lparr>pending := take j (pending s) @ drop (Suc j) (pending s)\<rparr>"
    obtain e v where "loaded h (pending s ! j) ?rm =
        settle h (load_scope (pending s ! j)) (load_id (pending s ! j))
          (load_index (pending s ! j)) e v ?rm"
      using loaded_outcomes by blast
    then show ?thesis using Onload True onload_invariant [OF inv True, of h e v]
      by (simp add: step_def)
  next
    case False
    then show ?thesis using Onload inv by (simp add: step_def)
  qed
qed

lemma invariant_init: "invariant init"
  by (simp add: invariant_def init_def)

lemma run_invariant: "invariant s \<Longrightarrow> invariant (run h acts s)"
  by (induction acts arbitrary: s) (simp_all add: run_def step_invariant)

lemma reachable_scope_ok:
  "k < length (scopes (run h acts init)) \<Longrightarrow>
   scope_ok (scopes (run h acts init) ! k) (loads_of k (pending (run h acts init)))"
  using run_invariant [OF invariant_init, of h acts] by (simp add: invariant_iff)

lemma first_error_None_iff: "first_error xs = None \<longleftrightarrow> (\<forall>x\<in>set xs. with_error x = None)"
  by (induction xs) (auto split: option.splits)

lemma first_failure_scope:
  assumes ok: "scope_ok c ls" and x: "x \<in> set (settled c)" and e: "with_error x = Some e"
  shows "applied c = [] \<and>
         (\<exists>e0. first_error (settled c) = Some e0 \<and> completed c = [(Some e0, VUndefined)])"
proof -
  have "first_error (settled c) \<noteq> None" using x e by (auto simp: first_error_None_iff)
  then obtain e0 where "first_error (settled c) = Some e0" by blast
  then show ?thesis using ok by (simp add: scope_ok_def history_ok_def)
qed

section \<open>The directory-name rule\<close>

lemma upto_final_slash_Cons:
  "upto_final_slash (c # r) = (if slash \<in> set (c # r) then c # upto_final_slash r else [])"
proof (cases "slash \<in> set r")
  case True
  then have "\<exists>x\<in>set (rev r). \<not> x \<noteq> slash" by simp
  then show ?thesis using True by (simp add: upto_final_slash_def dropWhile_append1)
next
  case False
  then have "dropWhile (\<lambda>c. c \<noteq> slash) (rev r) = []" by (auto simp: dropWhile_eq_Nil_conv)
  then show ?thesis using False by (simp add: upto_final_slash_def dropWhile_append)
qed

lemma upto_final_slash_Nil: "upto_final_slash [] = []"
  by (simp add: upto_final_slash_def)

lemma lazy_dirname_eq:
  "lazy_dirname p s =
     (if \<exists>c\<in>set (upto_final_slash s). line_terminator c then None
      else Some (p @ upto_final_slash s))"
proof (induction p s rule: lazy_dirname.induct)
  case (1 p)
  then show ?case by (simp add: upto_final_slash_Nil)
next
  case (2 p c r)
  show ?case
  proof (cases "slash \<in> set (c # r)")
    case False
    then show ?thesis by (simp add: upto_final_slash_Cons)
  next
    case True
    show ?thesis
    proof (cases "line_terminator c")
      case lt: True
      then show ?thesis using True by (simp add: upto_final_slash_Cons)
    next
      case nolt: False
      have "lazy_dirname (p @ [c]) r =
          (if \<exists>c\<in>set (upto_final_slash r). line_terminator c then None
           else Some ((p @ [c]) @ upto_final_slash r))"
        using "2.IH" True nolt by blast
      moreover have "lazy_dirname p (c # r) = lazy_dirname (p @ [c]) r"
        using True nolt by simp
      moreover have "upto_final_slash (c # r) = c # upto_final_slash r"
        using True by (simp add: upto_final_slash_Cons)
      ultimately show ?thesis using nolt by simp
    qed
  qed
qed

lemma dirname_eq:
  "dirname s =
     (if \<exists>c\<in>set (upto_final_slash s). line_terminator c then None
      else Some (upto_final_slash s))"
  by (simp add: dirname_def lazy_dirname_eq)

lemma define_runs_factory:
  assumes "inferModuleId h ctx = Inr loc"
    and "backslash \<notin> set (effective_id ident loc)"
    and "registry s (effective_id ident loc) = None"
    and "\<not> (\<exists>c\<in>set (upto_final_slash loc). line_terminator c)"
  shows "define h ctx ident deps fct s =
           runFactory h (effective_id ident loc) (upto_final_slash loc)
             (effective_dependencies ident deps) (js_or (js_or fct deps) ident) s"
  using assms by (simp add: define_def dirname_eq Let_def)

lemma infer_page: "loc \<noteq> [] \<Longrightarrow> inferModuleId h (page loc) = Inr loc"
  by (simp add: inferModuleId_def page_def)

lemma concrete_dependency_resolution:
  assumes "inferModuleId h ctx = Inr ''http://x.com/a/b.html''"
    and "backslash \<notin> set (effective_id ident ''http://x.com/a/b.html'')"
    and "registry s (effective_id ident ''http://x.com/a/b.html'') = None"
    and "registry s ''http://x.com/a/c.html'' = None"
  shows "define h ctx ident (VArr [''./c.html'']) (VFun f) s =
     (None,
      s\<lparr>scopes := scopes s @
           [new_scope (effective_id ident ''http://x.com/a/b.html'') ''http://x.com/a/''
              [''./c.html''] f],
        pending := pending s @
           [\<lparr>load_src = ''components/jquery/dist/http://x.com/a/c.html.js'',
             load_id = ''http://x.com/a/c.html'',
             load_moduleId = effective_id ident ''http://x.com/a/b.html'',
             load_scope = length (scopes s), load_index = 0\<rparr>]\<rparr>)"
proof -
  let ?i = "effective_id ident ''http://x.com/a/b.html''"
  have b: "upto_final_slash ''http://x.com/a/b.html'' = ''http://x.com/a/''"
    by (simp add: upto_final_slash_def slash_def)
  have r: "resolveRelativeId ''http://x.com/a/'' ''./c.html'' = Inr ''http://x.com/a/c.html''"
    by (simp add: regex_defs)
  have "define h ctx ident (VArr [''./c.html'']) (VFun f) s =
      runFactory h ?i ''http://x.com/a/'' [''./c.html''] (VFun f) s"
    using define_runs_factory [of h ctx "''http://x.com/a/b.html''" ident s
            "VArr [''./c.html'']" "VFun f"] assms(1-3)
    by (simp add: b effective_dependencies_def js_or_def line_terminator_def)
  also have "\<dots> = forEach h (length (scopes s)) ''http://x.com/a/'' ?i [''./c.html''] 0
       (s\<lparr>scopes := scopes s @ [new_scope ?i ''http://x.com/a/'' [''./c.html''] f]\<rparr>)"
    by (simp add: runFactory_dependencies)
  also have "\<dots> = (None,
      s\<lparr>scopes := scopes s @ [new_scope ?i ''http://x.com/a/'' [''./c.html''] f],
        pending := pending s @
           [\<lparr>load_src = ''components/jquery/dist/http://x.com/a/c.html.js'',
             load_id = ''http://x.com/a/c.html'', load_moduleId = ?i,
             load_scope = length (scopes s), load_index = 0\<rparr>]\<rparr>)"
    using assms(4) by (simp add: requestDependency_def r require_def loadScript_def)
  finally show ?thesis .
qed

lemma truthy_value_committed:
  assumes "truthy v" and "\<forall>f. v \<noteq> VFun f"
    and "inferModuleId h ctx = Inr loc" and "dirname loc = Some b"
    and "backslash \<notin> set i" and "registry s i = None"
  shows "define h ctx (VStr i) v VUndefined s =
           (None, s\<lparr>registry := (registry s)(i \<mapsto> v), commits := commits s @ [(i, v)]\<rparr>)"
  using assms
  by (simp add: define_def Let_def js_or_def effective_id_def runFactory_value define_callback_def)

lemma reserved_not_relativized:
  "reserved d \<Longrightarrow> requestDependency h k b m d i s = require h d m k i s"
  unfolding requestDependency_def reserved_def by presburger

lemma exports_and_module_synthesized:
  "require h ''exports'' m k i s = settle h k ''exports'' i None (VObj []) s"
  "require h ''module'' m k i s = settle h k ''module'' i None (VObj [(''id'', VStr m)]) s"
  by (simp_all add: require_def)

lemma present_empty_export_settles:
  "registry s ''x'' = Some VUndefined \<Longrightarrow>
   require h ''x'' m k i s = settle h k ''x'' i None VUndefined s"
  by (simp add: require_def)

lemma present_identifier_rejected:
  assumes "inferModuleId h ctx = Inr loc"
    and "backslash \<notin> set (effective_id ident loc)"
    and "registry s (effective_id ident loc) \<noteq> None"
  shows "define h ctx ident deps fct s = (Some (already_defined (effective_id ident loc)), s)"
  using assms by (auto simp: define_def Let_def)

lemma inference_failure_first:
  "inferModuleId h ctx = Inl e \<Longrightarrow> define h ctx ident deps fct s = (Some e, s)"
  by (simp add: define_def Let_def)

section \<open>The registry and the history of its writes\<close>

lemma settle_commits:
  "k < length (scopes s) \<Longrightarrow>
   commits (snd (settle h k d i e v s)) =
     commits s @ (case settle_commit h i e v (scopes s ! k) of
                    None \<Rightarrow> []
                  | Some r \<Rightarrow> [(moduleId (scopes s ! k), r)])"
  by (simp add: settle_def settle_commit_def upd_scope_def define_callback_def Let_def
           split: option.splits sum.splits)

lemma settle_registry:
  "k < length (scopes s) \<Longrightarrow>
   registry (snd (settle h k d i e v s)) =
     (case settle_commit h i e v (scopes s ! k) of
        None \<Rightarrow> registry s
      | Some r \<Rightarrow> (registry s)(moduleId (scopes s ! k) \<mapsto> r))"
  by (simp add: settle_def settle_commit_def upd_scope_def define_callback_def Let_def
           split: option.splits sum.splits)

lemma exported_mono: "exported cs m ident v \<Longrightarrow> exported (cs @ cs') m ident v"
  unfolding exported_def
  by (cases "ident = ''exports''"; cases "ident = ''module''") simp_all

lemma scope_ledger_iff:
  "scope_ledger h cs c \<longleftrightarrow>
     (\<forall>x\<in>set (settled c). with_error x = None \<longrightarrow>
        exported cs (moduleId c) (for_id x) (with_value x)) \<and>
     (\<forall>args\<in>set (applied c). \<forall>r. applyFn h (factory c) args = Inr r \<longrightarrow>
        (None, r) \<in> set (completed c) \<and> (moduleId c, r) \<in> set cs) \<and>
     (\<forall>p\<in>set (completed c). fst p = None \<longrightarrow>
        (\<exists>args\<in>set (applied c). applyFn h (factory c) args = Inr (snd p)))"
  unfolding scope_ledger_def list_all_iff list_ex_iff
  by (auto split: sum.splits)

lemma scope_ledger_mono: "scope_ledger h cs c \<Longrightarrow> scope_ledger h (cs @ cs') c"
  unfolding scope_ledger_iff using exported_mono by fastforce

lemma scope_ledger_settle_scope:
  assumes led: "scope_ledger h cs c"
    and ex: "e = None \<longrightarrow> exported cs (moduleId c) d v"
  shows "scope_ledger h
           (cs @ (case settle_commit h i e v c of None \<Rightarrow> [] | Some r \<Rightarrow> [(moduleId c, r)]))
           (settle_scope h i d e v c)"
proof (cases "requireError c \<or> e \<noteq> None \<or> unresolvedDependencies c - 1 \<noteq> 0")
  case True
  then have nc: "settle_commit h i e v c = None" by (simp add: settle_commit_def)
  show ?thesis
    unfolding nc using led ex True
    by (cases e) (auto simp: scope_ledger_iff settle_scope_def Let_def)
next
  case False
  then have f: "\<not> requireError c" "e = None" "unresolvedDependencies c - 1 = 0" by auto
  let ?args = "arguments (arr_set (modules c) i v)"
  show ?thesis
  proof (cases "applyFn h (factory c) ?args")
    case (Inl err)
    then have nc: "settle_commit h i e v c = None" using f by (simp add: settle_commit_def)
    show ?thesis
      unfolding nc using led ex f Inl
      by (auto simp: scope_ledger_iff settle_scope_def Let_def)
  next
    case (Inr r)
    then have nc: "settle_commit h i e v c = Some r" using f by (simp add: settle_commit_def)
    show ?thesis
      unfolding nc using led ex f Inr exported_mono [of cs "moduleId c" _ _ "[(moduleId c, r)]"]
      by (auto simp: scope_ledger_iff settle_scope_def Let_def)
  qed
qed

lemma ledger_iff:
  "ledger h s \<longleftrightarrow>
     registry s = map_of (rev (commits s)) \<and>
     (\<forall>l\<in>set (pending s). \<not> reserved (load_id l)) \<and>
     (\<forall>k<length (scopes s). scope_ledger h (commits s) (scopes s ! k))"
proof -
  have "list_all (scope_ledger h (commits s)) (scopes s) \<longleftrightarrow>
      (\<forall>k<length (scopes s). scope_ledger h (commits s) (scopes s ! k))"
    by (simp add: list_all_length)
  then show ?thesis by (simp add: ledger_def list_all_iff)
qed

lemma settle_ledger:
  assumes led: "ledger h s"
    and k: "k < length (scopes s)"
    and ex: "e = None \<longrightarrow> exported (commits s) (moduleId (scopes s ! k)) d v"
  shows "ledger h (snd (settle h k d i e v s))"
proof -
  let ?s' = "snd (settle h k d i e v s)"
  let ?c = "scopes s ! k"
  let ?new = "case settle_commit h i e v ?c of None \<Rightarrow> [] | Some r \<Rightarrow> [(moduleId ?c, r)]"
  have sc: "scopes ?s' = (scopes s)[k := settle_scope h i d e v ?c]" by (rule settle_scopes [OF k])
  have pe: "pending ?s' = pending s" by (rule settle_pending)
  have co: "commits ?s' = commits s @ ?new" by (rule settle_commits [OF k])
  have re: "registry ?s' = map_of (rev (commits ?s'))"
    using led k by (simp add: settle_registry co ledger_iff split: option.splits)
  have "scope_ledger h (commits ?s') (scopes ?s' ! k')" if k': "k' < length (scopes s)" for k'
  proof (cases "k' = k")
    case True
    have "scope_ledger h (commits s @ ?new) (settle_scope h i d e v ?c)"
      by (rule scope_ledger_settle_scope) (use led k ex in \<open>auto simp: ledger_iff\<close>)
    then show ?thesis using True k by (simp add: sc co)
  next
    case False
    have "scope_ledger h (commits s @ ?new) (scopes s ! k')"
      by (rule scope_ledger_mono) (use led k' in \<open>auto simp: ledger_iff\<close>)
    then show ?thesis using False by (simp add: sc co)
  qed
  then show ?thesis using led re by (simp add: ledger_iff sc pe)
qed


lemma require_available:
  "available s m ident = Some v \<Longrightarrow> require h ident m k i s = settle h k ident i None v s"
  unfolding require_def available_def
  by (cases "ident = ''exports''"; cases "ident = ''require''"; cases "ident = ''module''")
     simp_all

lemma require_unavailable:
  "available s m ident = None \<Longrightarrow>
   snd (require h ident m k i s) = s \<or>
   (\<not> reserved ident \<and>
    snd (require h ident m k i s) =
      loadScript (''components/jquery/dist/'' @ ident @ ''.js'') ident m k i s)"
  unfolding require_def available_def reserved_def
  by (cases "ident = ''exports''"; cases "ident = ''require''"; cases "ident = ''module''")
     simp_all

lemma available_exported:
  assumes "ledger h s" and "available s m ident = Some v"
  shows "exported (commits s) m ident v"
proof -
  have reg: "registry s ident = Some v \<Longrightarrow> (ident, v) \<in> set (commits s)"
    using assms(1) by (auto simp: ledger_iff dest: map_of_SomeD)
  show ?thesis
    using assms(2) reg unfolding available_def exported_def
    by (cases "ident = ''exports''"; cases "ident = ''require''"; cases "ident = ''module''")
       simp_all
qed

lemma loadScript_ledger:
  "ledger h s \<Longrightarrow> \<not> reserved ident \<Longrightarrow> ledger h (loadScript src ident m k i s)"
  by (simp add: ledger_iff loadScript_def)

lemma require_ledger:
  assumes led: "ledger h s" and k: "k < length (scopes s)"
  shows "ledger h (snd (require h ident (moduleId (scopes s ! k)) k i s))"
proof (cases "available s (moduleId (scopes s ! k)) ident")
  case None
  then show ?thesis
    using require_unavailable [OF None, of h k i] led loadScript_ledger [OF led] by auto
next
  case (Some v)
  have "ledger h (snd (settle h k ident i None v s))"
    by (rule settle_ledger [OF led k]) (simp add: available_exported [OF led Some])
  then show ?thesis by (simp add: require_available [OF Some])
qed

lemma requestDependency_ledger:
  assumes led: "ledger h s" and k: "k < length (scopes s)"
  shows "ledger h (snd (requestDependency h k b (moduleId (scopes s ! k)) d i s))"
proof -
  consider "snd (requestDependency h k b (moduleId (scopes s ! k)) d i s) = s"
    | ident where "requestDependency h k b (moduleId (scopes s ! k)) d i s =
                     require h ident (moduleId (scopes s ! k)) k i s"
    using requestDependency_outcomes [of h k b "moduleId (scopes s ! k)" d i s] by blast
  then show ?thesis
  proof cases
    case 1
    then show ?thesis using led by simp
  next
    case (2 ident)
    then show ?thesis using require_ledger [OF led k, of ident i] by simp
  qed
qed

lemma forEach_ledger:
  assumes "ledger h s" and "k < length (scopes s)" and "m = moduleId (scopes s ! k)"
  shows "ledger h (snd (forEach h k b m ds i s))"
  using assms
proof (induction ds arbitrary: i s)
  case Nil
  then show ?case by simp
next
  case (Cons d ds)
  let ?r = "requestDependency h k b m d i s"
  have led': "ledger h (snd ?r)"
    using requestDependency_ledger [OF Cons.prems(1,2), of b d i] Cons.prems(3) by simp
  note fr = requestDependency_frame [OF Cons.prems(2), of h b m d i]
  show ?case
  proof (cases "fst ?r")
    case (Some e)
    then show ?thesis using led' by (simp add: case_prod_unfold)
  next
    case None
    have "ledger h (snd (forEach h k b m ds (Suc i) (snd ?r)))"
      by (rule Cons.IH [OF led']) (use fr Cons.prems(2,3) in simp_all)
    then show ?thesis using None by (simp add: case_prod_unfold)
  qed
qed

lemma define_callback_ledger:
  "ledger h s \<Longrightarrow> ledger h (snd (define_callback ident None v s))"
  unfolding ledger_iff define_callback_def using scope_ledger_mono by auto

lemma scope_ledger_new_scope: "scope_ledger h cs (new_scope ident b deps f)"
  by (simp add: scope_ledger_def new_scope_def)

lemma ledger_append_scope:
  assumes "ledger h s" and "scope_ledger h (commits s) c"
  shows "ledger h (s\<lparr>scopes := scopes s @ [c]\<rparr>)"
  using assms by (simp add: ledger_def)

lemma runFactory_no_dependencies_ledger:
  assumes led: "ledger h s"
  shows "ledger h (snd (runFactory h ident b [] (VFun f) s))"
proof (cases "applyFn h f []")
  case (Inl e)
  then have eq: "snd (runFactory h ident b [] (VFun f) s) =
      s\<lparr>scopes := scopes s @ [(new_scope ident b [] f)\<lparr>applied := [[]]\<rparr>]\<rparr>"
    by (simp add: runFactory_def new_scope_def upd_scope_def arguments_def Let_def)
  have "scope_ledger h (commits s) ((new_scope ident b [] f)\<lparr>applied := [[]]\<rparr>)"
    using Inl by (simp add: scope_ledger_def new_scope_def)
  then show ?thesis unfolding eq by (rule ledger_append_scope [OF led])
next
  case (Inr r)
  then have eq: "snd (runFactory h ident b [] (VFun f) s) =
      s\<lparr>scopes := scopes s @ [(new_scope ident b [] f)\<lparr>applied := [[]], completed := [(None, r)]\<rparr>],
        registry := (registry s)(ident \<mapsto> r), commits := commits s @ [(ident, r)]\<rparr>"
    by (simp add: runFactory_def new_scope_def upd_scope_def arguments_def Let_def
          define_callback_def)
  have new: "scope_ledger h (commits s @ [(ident, r)])
      ((new_scope ident b [] f)\<lparr>applied := [[]], completed := [(None, r)]\<rparr>)"
    using Inr by (simp add: scope_ledger_def new_scope_def)
  have old: "\<forall>k<length (scopes s). scope_ledger h (commits s @ [(ident, r)]) (scopes s ! k)"
    using led scope_ledger_mono by (auto simp: ledger_iff)
  show ?thesis
    unfolding eq using led new old
    by (auto simp: ledger_iff nth_append less_Suc_eq)
qed

lemma runFactory_ledger:
  assumes led: "ledger h s"
  shows "ledger h (snd (runFactory h ident b deps fct s))"
proof (cases "\<exists>f. fct = VFun f")
  case False
  then have "runFactory h ident b deps fct s = define_callback ident None fct s"
    by (intro runFactory_value) simp
  then show ?thesis using define_callback_ledger [OF led] by simp
next
  case True
  then obtain f where f: "fct = VFun f" by blast
  show ?thesis
  proof (cases "deps = []")
    case True
    then show ?thesis using runFactory_no_dependencies_ledger [OF led] f by simp
  next
    case False
    let ?s1 = "s\<lparr>scopes := scopes s @ [new_scope ident b deps f]\<rparr>"
    have led1: "ledger h ?s1"
      by (rule ledger_append_scope [OF led scope_ledger_new_scope])
    have "ledger h (snd (forEach h (length (scopes s)) b ident deps 0 ?s1))"
      by (rule forEach_ledger [OF led1]) (simp_all add: new_scope_def)
    then show ?thesis using f False by (simp add: runFactory_dependencies)
  qed
qed

lemma define_ledger: "ledger h s \<Longrightarrow> ledger h (snd (define h ctx ident deps fct s))"
  using define_outcomes [of h ctx ident deps fct s] runFactory_ledger [of h s]
  by auto

lemma loaded_ledger:
  assumes led: "ledger h s" and k: "load_scope l < length (scopes s)"
    and nr: "\<not> reserved (load_id l)"
  shows "ledger h (snd (loaded h l s))"
proof (cases "registry s (load_id l)")
  case None
  then have "loaded h l s = settle h (load_scope l) (load_id l) (load_index l)
      (Some (not_loaded (load_id l) (load_moduleId l))) VUndefined s"
    by (simp add: loaded_def)
  then show ?thesis using settle_ledger [OF led k] by simp
next
  case (Some m)
  show ?thesis
  proof (cases "truthy m")
    case False
    then have "loaded h l s = settle h (load_scope l) (load_id l) (load_index l)
        (Some (not_loaded (load_id l) (load_moduleId l))) VUndefined s"
      using Some by (simp add: loaded_def)
    then show ?thesis using settle_ledger [OF led k] by simp
  next
    case True
    then have eq: "loaded h l s = settle h (load_scope l) (load_id l) (load_index l) None m s"
      using Some by (simp add: loaded_def)
    have "(load_id l, m) \<in> set (commits s)"
      using led Some by (auto simp: ledger_iff dest: map_of_SomeD)
    then have "exported (commits s) (moduleId (scopes s ! load_scope l)) (load_id l) m"
      using nr unfolding exported_def reserved_def by presburger
    then show ?thesis using settle_ledger [OF led k] eq by simp
  qed
qed

lemma step_ledger:
  assumes inv: "invariant s" and led: "ledger h s"
  shows "ledger h (snd (step h a s))"
proof (cases a)
  case (Define ctx ident deps fct)
  then show ?thesis using led by (simp add: step_def define_ledger)
next
  case (Onload j)
  show ?thesis
  proof (cases "j < length (pending s)")
    case True
    let ?rm = "s\<lparr>pending := take j (pending s) @ drop (Suc j) (pending s)\<rparr>"
    have sub: "set (take j (pending s) @ drop (Suc j) (pending s)) \<subseteq> set (pending s)"
      by (auto dest: in_set_takeD in_set_dropD)
    have led': "ledger h ?rm" using led sub by (auto simp: ledger_iff)
    have k: "load_scope (pending s ! j) < length (scopes ?rm)"
      using inv True by (simp add: invariant_iff)
    have nr: "\<not> reserved (load_id (pending s ! j))"
      using led True by (simp add: ledger_iff)
    show ?thesis using Onload True loaded_ledger [OF led' k nr] by (simp add: step_def)
  next
    case False
    then show ?thesis using Onload led by (simp add: step_def)
  qed
qed

lemma ledger_init: "ledger h init"
  by (simp add: ledger_def init_def)

lemma run_invariant_ledger:
  "invariant s \<Longrightarrow> ledger h s \<Longrightarrow> invariant (run h acts s) \<and> ledger h (run h acts s)"
  by (induction acts arbitrary: s) (simp_all add: run_def step_invariant step_ledger)

lemma reachable_ledger: "ledger h (run h acts init)"
  using run_invariant_ledger [OF invariant_init ledger_init] by blast

section \<open>What the delivering event does\<close>

lemma settle_raised:
  "k < length (scopes s) \<Longrightarrow>
   fst (settle h k d i e v s) =
     (if requireError (scopes s ! k) then None
      else (case e of
              Some x \<Rightarrow> Some x
            | None \<Rightarrow>
                if unresolvedDependencies (scopes s ! k) - 1 = 0 then
                  raised_by h (factory (scopes s ! k))
                    (arguments (arr_set (modules (scopes s ! k)) i v))
                else None))"
  by (simp add: settle_def raised_by_def upd_scope_def define_callback_def Let_def
           split: option.splits sum.splits)

lemma settle_registry_after:
  assumes "k < length (scopes s)" and "\<not> requireError (scopes s ! k)"
  shows "registry (snd (settle h k d i None v s)) =
     (if unresolvedDependencies (scopes s ! k) - 1 = 0 then
        registry_after h (factory (scopes s ! k))
          (arguments (arr_set (modules (scopes s ! k)) i v)) (moduleId (scopes s ! k)) (registry s)
      else registry s)"
  using assms
  by (simp add: settle_registry settle_commit_def registry_after_def split: sum.splits)

lemma arr_set_end: "arr_set xs (length xs) v = xs @ [Some v]"
  by (simp add: arr_set_def)

lemma arguments_append: "arguments (xs @ [Some v]) = arguments xs @ [v]"
  by (simp add: arguments_def)

lemma available_cong: "registry s' = registry s \<Longrightarrow> available s' m ident = available s m ident"
  unfolding available_def by presburger

lemma export_of_cong: "registry s' = registry s \<Longrightarrow> export_of s' = export_of s"
proof (intro ext)
  fix m b d assume "registry s' = registry s"
  then show "export_of s' m b d = export_of s m b d"
    unfolding export_of_def using available_cong [of s' s m]
    by (cases "resolveRelativeId b d") simp_all
qed

lemma request_export:
  assumes "export_of s m b d = Some v"
  shows "\<exists>ident. requested b d ident \<and>
           requestDependency h k b m d i s = settle h k ident i None v s"
proof (cases "reserved d")
  case True
  then have "available s m d = Some v" using assms by (simp add: export_of_def)
  then have "requestDependency h k b m d i s = settle h k d i None v s"
    using True by (simp add: reserved_not_relativized require_available)
  then show ?thesis using True by (auto simp: requested_def)
next
  case False
  then obtain ident where r: "resolveRelativeId b d = Inr ident" and a: "available s m ident = Some v"
    using assms by (auto simp: export_of_def split: sum.splits)
  have "requestDependency h k b m d i s = require h ident m k i s"
    using False r unfolding requestDependency_def reserved_def by simp
  then show ?thesis using False r a by (auto simp: requested_def require_available)
qed

lemma forEach_available:
  assumes "k < length (scopes s)"
    and "\<not> requireError (scopes s ! k)"
    and "unresolvedDependencies (scopes s ! k) = int (length ds)"
    and "ds \<noteq> []"
    and "length (modules (scopes s ! k)) = i"
    and "moduleId (scopes s ! k) = m"
    and "factory (scopes s ! k) = f"
    and "map (export_of s m b) ds = map Some vs"
  shows "fst (forEach h k b m ds i s) = raised_by h f (arguments (modules (scopes s ! k)) @ vs) \<and>
         registry (snd (forEach h k b m ds i s)) =
           registry_after h f (arguments (modules (scopes s ! k)) @ vs) m (registry s)"
  using assms
proof (induction ds arbitrary: i s vs)
  case Nil
  then show ?case by simp
next
  case (Cons d ds)
  let ?c = "scopes s ! k"
  obtain v vs' where vs: "vs = v # vs'" and ex: "export_of s m b d = Some v"
    and rest: "map (export_of s m b) ds = map Some vs'"
    using Cons.prems(8) by (cases vs) auto
  obtain ident where rq: "requestDependency h k b m d i s = settle h k ident i None v s"
    using request_export [OF ex] by blast
  let ?r = "settle h k ident i None v s"
  have sc: "scopes (snd ?r) = (scopes s)[k := settle_scope h i ident None v ?c]"
    by (rule settle_scopes [OF Cons.prems(1)])
  have mods: "arr_set (modules ?c) i v = modules ?c @ [Some v]"
    using Cons.prems(5) arr_set_end by blast
  show ?case
  proof (cases "ds = []")
    case True
    then have one: "unresolvedDependencies ?c - 1 = 0" using Cons.prems(3) by simp
    have vs': "vs' = []" using rest True by simp
    have f1: "fst ?r = raised_by h f (arguments (modules ?c) @ vs)"
      using Cons.prems(1,2,7) one
      by (simp add: settle_raised mods arguments_append vs vs')
    have f2: "registry (snd ?r) = registry_after h f (arguments (modules ?c) @ vs) m (registry s)"
      using Cons.prems(1,2,6,7) one
      by (simp add: settle_registry_after mods arguments_append vs vs')
    show ?thesis using True rq f1 f2 by (cases ?r) (auto split: option.splits)
  next
    case False
    then have more: "unresolvedDependencies ?c - 1 \<noteq> 0" using Cons.prems(3) by simp
    have f1: "fst ?r = None" using Cons.prems(1,2) more by (simp add: settle_raised)
    have f2: "registry (snd ?r) = registry s"
      using Cons.prems(1,2) more by (simp add: settle_registry_after)
    let ?c' = "scopes (snd ?r) ! k"
    have c': "?c' = settle_scope h i ident None v ?c" using sc Cons.prems(1) by simp
    have st: "\<not> requireError ?c'" "unresolvedDependencies ?c' = int (length ds)"
      "length (modules ?c') = Suc i" "moduleId ?c' = m" "factory ?c' = f"
      "modules ?c' = modules ?c @ [Some v]"
      using Cons.prems(2,3,5,6,7) more mods
      by (simp_all add: c' settle_scope_def Let_def)
    have "fst (forEach h k b m ds (Suc i) (snd ?r)) =
            raised_by h f (arguments (modules ?c') @ vs') \<and>
          registry (snd (forEach h k b m ds (Suc i) (snd ?r))) =
            registry_after h f (arguments (modules ?c') @ vs') m (registry (snd ?r))"
    proof (rule Cons.IH)
      show "k < length (scopes (snd ?r))" using sc Cons.prems(1) by simp
      show "map (export_of (snd ?r) m b) ds = map Some vs'"
        using rest by (simp add: export_of_cong [OF f2])
    qed (use st False in simp_all)
    moreover have "forEach h k b m (d # ds) i s = forEach h k b m ds (Suc i) (snd ?r)"
      using rq f1 by (cases ?r) simp
    ultimately show ?thesis by (simp add: st(6) arguments_append vs f2)
  qed
qed

lemma define_available:
  assumes "inferModuleId h ctx = Inr loc"
    and "backslash \<notin> set (effective_id ident loc)"
    and "registry s (effective_id ident loc) = None"
    and "dirname loc = Some b"
    and "js_or (js_or fct deps) ident = VFun f"
    and "map (export_of s (effective_id ident loc) b) (effective_dependencies ident deps) =
           map Some vs"
  shows "fst (define h ctx ident deps fct s) = raised_by h f vs \<and>
         registry (snd (define h ctx ident deps fct s)) =
           registry_after h f vs (effective_id ident loc) (registry s)"
proof -
  let ?i = "effective_id ident loc"
  let ?ds = "effective_dependencies ident deps"
  have d: "define h ctx ident deps fct s = runFactory h ?i b ?ds (VFun f) s"
    using assms(1-5) by (simp add: define_def Let_def)
  show ?thesis
  proof (cases "?ds = []")
    case True
    then have "vs = []" using assms(6) by simp
    then show ?thesis
      unfolding d True
      by (cases "applyFn h f []")
         (simp_all add: runFactory_def new_scope_def upd_scope_def arguments_def Let_def
            define_callback_def raised_by_def registry_after_def)
  next
    case False
    let ?s1 = "s\<lparr>scopes := scopes s @ [new_scope ?i b ?ds f]\<rparr>"
    have "fst (forEach h (length (scopes s)) b ?i ?ds 0 ?s1) =
            raised_by h f (arguments (modules (scopes ?s1 ! length (scopes s))) @ vs) \<and>
          registry (snd (forEach h (length (scopes s)) b ?i ?ds 0 ?s1)) =
            registry_after h f (arguments (modules (scopes ?s1 ! length (scopes s))) @ vs) ?i
              (registry ?s1)"
    proof (rule forEach_available)
      show "map (export_of ?s1 ?i b) ?ds = map Some vs"
        using assms(6) by (simp add: export_of_cong [of ?s1 s])
    qed (use False in \<open>simp_all add: new_scope_def\<close>)
    then show ?thesis
      unfolding d runFactory_dependencies [OF False]
      by (simp add: new_scope_def arguments_def)
  qed
qed

lemma settled_ok_iff:
  "settled_ok c i \<longleftrightarrow> (\<exists>x\<in>set (settled c). at_index x = i \<and> with_error x = None)"
  by (simp add: settled_ok_def list_ex_iff)

lemma all_settled_full:
  assumes ok: "scope_ok c ls"
    and all: "\<forall>i<length (dependencies c). settled_ok c i"
  shows "first_error (settled c) = None" and "length (settled c) = length (dependencies c)"
    and "ls = []"
proof -
  let ?n = "length (dependencies c)"
  have dist: "distinct (map at_index (settled c) @ map load_index ls)"
    using ok by (simp add: scope_ok_def)
  have bound: "\<forall>x\<in>set (settled c). at_index x < ?n"
    using ok by (simp add: scope_ok_def list_all_iff)
  have lbound: "\<forall>l\<in>set ls. load_index l < ?n"
    using ok by (simp add: scope_ok_def list_all_iff)
  have cover: "{..<?n} \<subseteq> set (map at_index (settled c))"
    using all by (force simp: settled_ok_iff)
  have noerr: "with_error y = None" if y: "y \<in> set (settled c)" for y
  proof -
    have "at_index y < ?n" using bound y by simp
    then obtain x where x: "x \<in> set (settled c)" "at_index x = at_index y" "with_error x = None"
      using all by (auto simp: settled_ok_iff)
    have "inj_on at_index (set (settled c))" using dist by (simp add: distinct_map)
    then have "x = y" using x y by (meson inj_onD)
    then show ?thesis using x by simp
  qed
  then show "first_error (settled c) = None" by (simp add: first_error_None_iff)
  have "card {..<?n} \<le> card (set (map at_index (settled c)))"
    using cover by (intro card_mono) auto
  moreover have "card (set (map at_index (settled c))) = length (map at_index (settled c))"
    using dist by (intro distinct_card) simp
  ultimately have "?n \<le> length (settled c)" by simp
  moreover have "length (map at_index (settled c)) \<le> ?n"
    by (rule distinct_bounded_length) (use dist bound in auto)
  ultimately show "length (settled c) = ?n" by simp
  show "ls = []"
  proof (cases ls)
    case (Cons l ls')
    then have "load_index l \<in> set (map at_index (settled c))" using lbound cover by auto
    then show ?thesis using dist Cons by auto
  qed simp
qed

lemma all_settled_outcome:
  assumes ok: "scope_ok c ls"
    and led: "scope_ledger h cs c"
    and all: "\<forall>i<length (dependencies c). settled_ok c i"
  shows "\<exists>args. applied c = [args] \<and> length args = length (dependencies c) \<and> ls = [] \<and>
           (\<forall>i<length (dependencies c). \<exists>x\<in>set (settled c).
               at_index x = i \<and> with_error x = None \<and> with_value x = args ! i \<and>
               requested (base c) (dependencies c ! i) (for_id x) \<and>
               exported cs (moduleId c) (for_id x) (with_value x)) \<and>
           (case applyFn h (factory c) args of
              Inl e \<Rightarrow> completed c = []
            | Inr r \<Rightarrow> completed c = [(None, r)] \<and> (moduleId c, r) \<in> set cs)"
proof -
  let ?n = "length (dependencies c)"
  let ?args = "arguments (modules c)"
  note full = all_settled_full [OF ok all]
  have hist: "history_ok c" using ok by (simp add: scope_ok_def)
  have app: "applied c = [?args]" and len: "length (modules c) = ?n"
    and slots: "\<forall>x\<in>set (settled c). modules c ! at_index x = Some (with_value x)"
    and cl: "length (completed c) \<le> 1" and cn: "\<forall>p\<in>set (completed c). fst p = None"
    using hist full(1,2) by (simp_all add: history_ok_def list_all_iff)
  have req: "\<forall>x\<in>set (settled c). at_index x < ?n \<and>
               requested (base c) (dependencies c ! at_index x) (for_id x)"
    using ok by (simp add: scope_ok_def list_all_iff)
  have ex: "\<forall>x\<in>set (settled c). with_error x = None \<longrightarrow>
               exported cs (moduleId c) (for_id x) (with_value x)"
    using led by (simp add: scope_ledger_iff)
  have each: "\<exists>x\<in>set (settled c). at_index x = i \<and> with_error x = None \<and>
          with_value x = ?args ! i \<and> requested (base c) (dependencies c ! i) (for_id x) \<and>
          exported cs (moduleId c) (for_id x) (with_value x)" if i: "i < ?n" for i
  proof -
    obtain x where x: "x \<in> set (settled c)" "at_index x = i" "with_error x = None"
      using all i by (auto simp: settled_ok_iff)
    have "modules c ! i = Some (with_value x)" using slots x by auto
    then have "?args ! i = with_value x" using i len by (simp add: arguments_def)
    then show ?thesis using x req ex by auto
  qed
  have out: "case applyFn h (factory c) ?args of
              Inl e \<Rightarrow> completed c = []
            | Inr r \<Rightarrow> completed c = [(None, r)] \<and> (moduleId c, r) \<in> set cs"
  proof (cases "applyFn h (factory c) ?args")
    case (Inl e)
    have "completed c = []"
    proof (cases "completed c")
      case (Cons p ps)
      then have "fst p = None" using cn by simp
      then have "\<exists>a\<in>set (applied c). applyFn h (factory c) a = Inr (snd p)"
        using led Cons by (simp add: scope_ledger_iff)
      then show ?thesis using app Inl by simp
    qed simp
    then show ?thesis using Inl by simp
  next
    case (Inr r)
    then have in_c: "(None, r) \<in> set (completed c)" and in_cs: "(moduleId c, r) \<in> set cs"
      using led app by (simp_all add: scope_ledger_iff)
    have "completed c = [(None, r)]"
      using in_c cl by (cases "completed c") auto
    then show ?thesis using Inr in_cs by simp
  qed
  show ?thesis
    using app len full(3) each out by (intro exI [of _ ?args]) (simp add: arguments_def)
qed

lemma committed_registered:
  assumes "ledger h s" and "(ident, r) \<in> set (commits s)"
  shows "registry s ident \<noteq> None"
proof -
  have "ident \<in> fst ` set (rev (commits s))" using assms(2) by force
  then have "map_of (rev (commits s)) ident \<noteq> None" by (simp add: map_of_eq_None_iff)
  then show ?thesis using assms(1) by (simp add: ledger_iff)
qed

lemma onload_step:
  assumes "j < length (pending s)" and "registry s (load_id (pending s ! j)) = Some m"
    and "truthy m"
  shows "step h (Onload j) s =
     settle h (load_scope (pending s ! j)) (load_id (pending s ! j)) (load_index (pending s ! j))
       None m (s\<lparr>pending := take j (pending s) @ drop (Suc j) (pending s)\<rparr>)"
  using assms by (simp add: step_def loaded_def)

lemma onload_delivery:
  assumes inv: "invariant s" and led: "ledger h s"
    and j: "j < length (pending s)"
    and reg: "registry s (load_id (pending s ! j)) = Some m" and tr: "truthy m"
    and noerr: "\<forall>x\<in>set (settled (scopes s ! load_scope (pending s ! j))). with_error x = None"
  shows "if \<forall>i<length (dependencies (scopes s ! load_scope (pending s ! j))).
              i \<noteq> load_index (pending s ! j) \<longrightarrow>
              settled_ok (scopes s ! load_scope (pending s ! j)) i
         then \<exists>args.
           length args = length (dependencies (scopes s ! load_scope (pending s ! j))) \<and>
           args ! load_index (pending s ! j) = m \<and>
           requested (base (scopes s ! load_scope (pending s ! j)))
             (dependencies (scopes s ! load_scope (pending s ! j)) ! load_index (pending s ! j))
             (load_id (pending s ! j)) \<and>
           (\<forall>x\<in>set (settled (scopes s ! load_scope (pending s ! j))).
              args ! at_index x = with_value x \<and>
              requested (base (scopes s ! load_scope (pending s ! j)))
                (dependencies (scopes s ! load_scope (pending s ! j)) ! at_index x) (for_id x) \<and>
              exported (commits s) (moduleId (scopes s ! load_scope (pending s ! j)))
                (for_id x) (with_value x)) \<and>
           fst (step h (Onload j) s) =
             raised_by h (factory (scopes s ! load_scope (pending s ! j))) args \<and>
           registry (snd (step h (Onload j) s)) =
             registry_after h (factory (scopes s ! load_scope (pending s ! j))) args
               (moduleId (scopes s ! load_scope (pending s ! j))) (registry s)
         else fst (step h (Onload j) s) = None \<and>
              registry (snd (step h (Onload j) s)) = registry s"
proof -
  let ?l = "pending s ! j"
  let ?k = "load_scope ?l"
  let ?i = "load_index ?l"
  let ?c = "scopes s ! ?k"
  let ?n = "length (dependencies ?c)"
  let ?rm = "s\<lparr>pending := take j (pending s) @ drop (Suc j) (pending s)\<rparr>"
  let ?args = "arguments (arr_set (modules ?c) ?i m)"
  have k: "?k < length (scopes s)" using inv j by (simp add: invariant_iff)
  have ok: "scope_ok ?c (loads_of ?k (pending s))" using inv k by (simp add: invariant_iff)
  have lin: "?l \<in> set (loads_of ?k (pending s))" using j by (simp add: loads_of_def)
  have dist: "distinct (map at_index (settled ?c))"
    and bound: "\<forall>x\<in>set (settled ?c). at_index x < ?n \<and>
                  requested (base ?c) (dependencies ?c ! at_index x) (for_id x)"
    and hist: "history_ok ?c"
    using ok by (simp_all add: scope_ok_def list_all_iff)
  have i: "?i < ?n" and rq: "requested (base ?c) (dependencies ?c ! ?i) (load_id ?l)"
    using ok lin unfolding scope_ok_def list_all_iff by blast+
  have fresh: "?i \<notin> set (map at_index (settled ?c))"
  proof -
    have "?i \<in> set (map load_index (loads_of ?k (pending s)))" using lin by simp
    moreover have "distinct (map at_index (settled ?c) @ map load_index (loads_of ?k (pending s)))"
      using ok by (simp add: scope_ok_def)
    ultimately show ?thesis by auto
  qed
  have fe: "first_error (settled ?c) = None" using noerr by (simp add: first_error_None_iff)
  have flag: "\<not> requireError ?c"
    and cnt: "unresolvedDependencies ?c = int ?n - int (length (settled ?c))"
    and slots: "\<forall>x\<in>set (settled ?c). at_index x < length (modules ?c) \<and>
                  modules ?c ! at_index x = Some (with_value x)"
    and len: "length (modules ?c) \<le> ?n"
    using hist fe by (simp_all add: history_ok_def list_all_iff)
  have ex: "\<forall>x\<in>set (settled ?c). exported (commits s) (moduleId ?c) (for_id x) (with_value x)"
    using led k noerr by (simp add: ledger_iff scope_ledger_iff)
  have st: "step h (Onload j) s = settle h ?k (load_id ?l) ?i None m ?rm"
    by (rule onload_step [OF j reg tr])
  have krm: "?k < length (scopes ?rm)" "scopes ?rm ! ?k = ?c" "registry ?rm = registry s"
    using k by simp_all
  have raised: "fst (step h (Onload j) s) =
      (if unresolvedDependencies ?c - 1 = 0 then raised_by h (factory ?c) ?args else None)"
    unfolding st using settle_raised [OF krm(1), of h "load_id ?l" ?i None m] flag
    by (simp add: krm)
  have after: "registry (snd (step h (Onload j) s)) =
      (if unresolvedDependencies ?c - 1 = 0
       then registry_after h (factory ?c) ?args (moduleId ?c) (registry s) else registry s)"
    unfolding st using settle_registry_after [OF krm(1), of h "load_id ?l" ?i m] flag
    by (simp add: krm)
  show ?thesis
  proof (cases "\<forall>i<?n. i \<noteq> ?i \<longrightarrow> settled_ok ?c i")
    case True
    have "set (map at_index (settled ?c) @ [?i]) = {..<?n}"
    proof
      show "set (map at_index (settled ?c) @ [?i]) \<subseteq> {..<?n}" using bound i by auto
      show "{..<?n} \<subseteq> set (map at_index (settled ?c) @ [?i])"
        using True by (force simp: settled_ok_iff)
    qed
    moreover have d': "distinct (map at_index (settled ?c) @ [?i])" using dist fresh by simp
    ultimately have "length (map at_index (settled ?c) @ [?i]) = card {..<?n}"
      using distinct_card [OF d'] by simp
    then have size: "Suc (length (settled ?c)) = ?n" by simp
    then have one: "unresolvedDependencies ?c - 1 = 0" using cnt by simp
    have "?n - 1 < length (arr_set (modules ?c) ?i m)"
    proof (cases "?n - 1 = ?i")
      case True
      then show ?thesis by (simp add: length_arr_set)
    next
      case False
      then have "settled_ok ?c (?n - 1)" using True i \<open>\<forall>i<?n. i \<noteq> ?i \<longrightarrow> settled_ok ?c i\<close> by simp
      then have "?n - 1 < length (modules ?c)" using slots by (auto simp: settled_ok_iff)
      then show ?thesis by (simp add: length_arr_set)
    qed
    then have la: "length ?args = ?n"
      using len i by (simp add: arguments_def length_arr_set)
    have ai: "?args ! ?i = m"
      using i la by (simp add: arguments_def nth_arr_set_same length_arr_set)
    have ax: "?args ! at_index x = with_value x" if x: "x \<in> set (settled ?c)" for x
    proof -
      have "at_index x \<in> set (map at_index (settled ?c))" using x by simp
      then have ne: "at_index x \<noteq> ?i" using fresh by metis
      have lt: "at_index x < length (modules ?c)" and v: "modules ?c ! at_index x = Some (with_value x)"
        using slots x by auto
      have "arr_set (modules ?c) ?i m ! at_index x = Some (with_value x)"
        using nth_arr_set_other [OF ne lt] v by simp
      then show ?thesis using lt by (simp add: arguments_def length_arr_set)
    qed
    have cf: "length ?args = ?n \<and> ?args ! ?i = m \<and>
        requested (base ?c) (dependencies ?c ! ?i) (load_id ?l) \<and>
        (\<forall>x\<in>set (settled ?c). ?args ! at_index x = with_value x \<and>
           requested (base ?c) (dependencies ?c ! at_index x) (for_id x) \<and>
           exported (commits s) (moduleId ?c) (for_id x) (with_value x)) \<and>
        fst (step h (Onload j) s) = raised_by h (factory ?c) ?args \<and>
        registry (snd (step h (Onload j) s)) =
          registry_after h (factory ?c) ?args (moduleId ?c) (registry s)"
      using la ai rq ax bound ex raised after one by simp
    show ?thesis
      by (subst if_P, rule True, rule exI [of _ ?args], rule cf)
  next
    case False
    then obtain i0 where i0: "i0 < ?n" "i0 \<noteq> ?i" "\<not> settled_ok ?c i0" by blast
    then have "i0 \<notin> set (map at_index (settled ?c))"
      using noerr by (auto simp: settled_ok_iff)
    then have "distinct (i0 # ?i # map at_index (settled ?c))"
      using dist fresh i0(2) by simp
    then have "length (i0 # ?i # map at_index (settled ?c)) \<le> ?n"
      by (rule distinct_bounded_length) (use bound i i0 in auto)
    then have "unresolvedDependencies ?c - 1 \<noteq> 0" using cnt by simp
    then have nf: "fst (step h (Onload j) s) = None \<and>
        registry (snd (step h (Onload j) s)) = registry s"
      using raised after by simp
    show ?thesis
      by (subst if_not_P, rule False, rule nf)
  qed
qed

section \<open>Evaluated runs\<close>

lemma sibling_failure_scopes:
  "scopes (run collect_host sibling_failure_run init) =
     [\<lparr>moduleId = ''m'', base = ''http://x.com/a/'', dependencies = [''./x'', ''./y''],
       factory = 0, unresolvedDependencies = 2, modules = [], requireError = True,
       settled =
         [\<lparr>at_index = 1, for_id = ''http://x.com/a/y'',
           with_error = Some (not_loaded ''http://x.com/a/y'' ''m''), with_value = VUndefined\<rparr>,
          \<lparr>at_index = 0, for_id = ''http://x.com/a/x'', with_error = None, with_value = VStr ''X''\<rparr>],
       applied = [],
       completed = [(Some (not_loaded ''http://x.com/a/y'' ''m''), VUndefined)]\<rparr>]"
  by (simp add: sibling_failure_run_def Let_def regex_defs loader_defs collect_host_def page_def)

lemma out_of_order_scopes:
  "scopes (run collect_host out_of_order_run init) =
     [\<lparr>moduleId = ''m'', base = ''http://x.com/a/'', dependencies = [''./x'', ''./y''],
       factory = 0, unresolvedDependencies = 0, modules = [Some (VStr ''X''), Some (VStr ''Y'')],
       requireError = False,
       settled =
         [\<lparr>at_index = 1, for_id = ''http://x.com/a/y'', with_error = None, with_value = VStr ''Y''\<rparr>,
          \<lparr>at_index = 0, for_id = ''http://x.com/a/x'', with_error = None, with_value = VStr ''X''\<rparr>],
       applied = [[VStr ''X'', VStr ''Y'']],
       completed =
         [(None, VObj [(''factory'', VNum 0), (''arg'', VStr ''X''), (''arg'', VStr ''Y'')])]\<rparr>]"
  by (simp add: out_of_order_run_def Let_def regex_defs loader_defs collect_host_def page_def)

lemma out_of_order_final:
  "commits (run collect_host out_of_order_run init) =
     [(''http://x.com/a/x'', VStr ''X''), (''http://x.com/a/y'', VStr ''Y''),
      (''m'', VObj [(''factory'', VNum 0), (''arg'', VStr ''X''), (''arg'', VStr ''Y'')])]"
  "registry (run collect_host out_of_order_run init) ''m'' =
     Some (VObj [(''factory'', VNum 0), (''arg'', VStr ''X''), (''arg'', VStr ''Y'')])"
  "pending (run collect_host out_of_order_run init) = []"
  by (simp_all add: out_of_order_run_def Let_def regex_defs loader_defs collect_host_def page_def)

lemma out_of_order_before_last:
  "scopes (run collect_host (take 4 out_of_order_run) init) =
     [\<lparr>moduleId = ''m'', base = ''http://x.com/a/'', dependencies = [''./x'', ''./y''],
       factory = 0, unresolvedDependencies = 1, modules = [None, Some (VStr ''Y'')],
       requireError = False,
       settled =
         [\<lparr>at_index = 1, for_id = ''http://x.com/a/y'', with_error = None, with_value = VStr ''Y''\<rparr>],
       applied = [], completed = []\<rparr>]"
  "pending (run collect_host (take 4 out_of_order_run) init) =
     [\<lparr>load_src = ''components/jquery/dist/http://x.com/a/x.js'', load_id = ''http://x.com/a/x'',
       load_moduleId = ''m'', load_scope = 0, load_index = 0\<rparr>]"
  "registry (run collect_host (take 4 out_of_order_run) init) ''http://x.com/a/x'' = Some (VStr ''X'')"
  "registry (run collect_host (take 4 out_of_order_run) init) ''m'' = None"
  by (simp_all add: out_of_order_run_def Let_def regex_defs loader_defs collect_host_def page_def)

lemma registered_before:
  "registry (run collect_host (take 2 registered_run) init) ''http://x.com/a/x'' = Some (VStr ''X'')"
  "registry (run collect_host (take 2 registered_run) init) ''http://x.com/a/y'' = Some (VStr ''Y'')"
  "registry (run collect_host (take 2 registered_run) init) ''m'' = None"
  by (simp_all add: registered_run_def Let_def regex_defs loader_defs collect_host_def page_def)

lemma list2_eq: "length xs = Suc (Suc 0) \<Longrightarrow> xs ! 0 = a \<Longrightarrow> xs ! Suc 0 = b \<Longrightarrow> xs = [a, b]"
  by (cases xs; cases "tl xs") auto

lemma first_failure_reachable:
  assumes "k < length (scopes (run h acts init))"
    and "x \<in> set (settled (scopes (run h acts init) ! k))"
    and "with_error x = Some e"
  shows "applied (scopes (run h acts init) ! k) = [] \<and>
    (\<exists>e0. first_error (settled (scopes (run h acts init) ! k)) = Some e0 \<and>
       completed (scopes (run h acts init) ! k) = [(Some e0, VUndefined)] \<and>
       (\<forall>s'. define_callback (moduleId (scopes (run h acts init) ! k)) (Some e0) VUndefined s' =
              (Some e0, s'))) \<and>
    (\<forall>d i e' v. settle h k d i e' v (run h acts init) =
       (None, upd_scope k (\<lambda>c. c\<lparr>settled := settled c @
          [\<lparr>at_index = i, for_id = d, with_error = e', with_value = v\<rparr>]\<rparr>) (run h acts init)))"
proof -
  let ?s = "run h acts init"
  let ?c = "scopes ?s ! k"
  have ok: "scope_ok ?c (loads_of k (pending ?s))"
    by (rule reachable_scope_ok [OF assms(1)])
  have ff: "applied ?c = [] \<and>
     (\<exists>e0. first_error (settled ?c) = Some e0 \<and> completed ?c = [(Some e0, VUndefined)])"
    by (rule first_failure_scope [OF ok assms(2,3)])
  then obtain e0 where e0: "first_error (settled ?c) = Some e0" by blast
  have flag: "requireError ?c"
    using ok e0 by (simp add: scope_ok_def history_ok_def)
  have discard: "settle h k d i e' v ?s =
       (None, upd_scope k (\<lambda>c. c\<lparr>settled := settled c @
          [\<lparr>at_index = i, for_id = d, with_error = e', with_value = v\<rparr>]\<rparr>) ?s)" for d i e' v
    using flag assms(1) by (simp add: settle_def upd_scope_def Let_def)
  show ?thesis using ff discard by (auto simp: define_callback_def)
qed

section \<open>The claims\<close>

text \<open>
  Claim C1 (first failure wins), evaluated on \<open>two_errors_run\<close>. The one call of
  \<^verbatim>\<open>define\<close> requests \<open>x\<close>, whose script starts loading, and then
  \<^verbatim>\<open>'require'\<close>, whose branch of \<^verbatim>\<open>_require\<close> calls the unbound name
  \<^verbatim>\<open>calback\<close>: a ReferenceError leaves \<^verbatim>\<open>define\<close>. When the script of \<open>x\<close>
  has loaded without defining it, that dependency settles with the not-loaded error and the
  completion callback throws it: two errors have surfaced from one call, and \<open>m\<close> is not
  registered. (The flag itself stops everything after the first failing settlement:
  \<open>first_failure_reachable\<close>.)
\<close>

theorem two_errors_from_one_define:
  "fst (step collect_host (two_errors_run ! 0) init) =
     Some (ReferenceError ''calback is not defined'') \<and>
   fst (step collect_host (two_errors_run ! 1) (run collect_host (take 1 two_errors_run) init)) =
     Some (not_loaded ''x'' ''m'') \<and>
   length (scopes (run collect_host two_errors_run init)) = 1 \<and>
   registry (run collect_host two_errors_run init) ''m'' = None"
  by (simp add: two_errors_run_def Let_def regex_defs loader_defs collect_host_def page_def)

text \<open>
  Claim C2 (at-most-once registration), evaluated on \<open>double_define_run\<close>. The first
  \<^verbatim>\<open>define\<close> of \<open>m\<close> is still waiting for \<open>x\<close> when the second one runs; \<open>m\<close> is
  not in the registry yet, so the second call raises nothing, and when the two scripts have
  loaded the registry has been written twice at \<open>m\<close>, the second write replacing the first.
\<close>

theorem in_flight_identifier_defined_twice:
  "fst (step collect_host (double_define_run ! 1) (run collect_host (take 1 double_define_run) init))
     = None \<and>
   commits (run collect_host double_define_run init) =
     [(''x'', VNum 7),
      (''m'', VObj [(''factory'', VNum 0), (''arg'', VNum 7)]),
      (''m'', VObj [(''factory'', VNum 1), (''arg'', VNum 7)])] \<and>
   registry (run collect_host double_define_run init) ''m'' =
     Some (VObj [(''factory'', VNum 1), (''arg'', VNum 7)])"
  by (simp add: double_define_run_def Let_def regex_defs loader_defs collect_host_def page_def)

text \<open>
  Claim C3 (a non-callable value is committed as it is), evaluated at falsy values.
  \<^verbatim>\<open>define("m", 0)\<close>, and likewise with \<^verbatim>\<open>false\<close>, \<^verbatim>\<open>null\<close> and the empty
  string, commits the string \<^verbatim>\<open>"m"\<close>: the value is lost to
  \<^verbatim>\<open>factory || dependencies || id\<close>. \<^verbatim>\<open>define("m", [], 0)\<close> commits the empty
  dependency list. (For a truthy value the claim holds: \<open>truthy_value_committed\<close>.)
\<close>

theorem falsy_value_not_committed:
  "registry (snd (define collect_host (page ''http://x.com/a/b.html'')
      (VStr ''m'') (VNum 0) VUndefined init)) ''m'' = Some (VStr ''m'') \<and>
   registry (snd (define collect_host (page ''http://x.com/a/b.html'')
      (VStr ''m'') (VBool False) VUndefined init)) ''m'' = Some (VStr ''m'') \<and>
   registry (snd (define collect_host (page ''http://x.com/a/b.html'')
      (VStr ''m'') VNull VUndefined init)) ''m'' = Some (VStr ''m'') \<and>
   registry (snd (define collect_host (page ''http://x.com/a/b.html'')
      (VStr ''m'') (VStr []) VUndefined init)) ''m'' = Some (VStr ''m'') \<and>
   registry (snd (define collect_host (page ''http://x.com/a/b.html'')
      (VStr ''m'') (VArr []) (VNum 0) init)) ''m'' = Some (VArr [])"
  by (simp add: Let_def regex_defs loader_defs collect_host_def page_def)

text \<open>
  Claim C4 (declaration order), in three parts.

  First, in every reachable state, for every scope all of whose declared dependencies have
  settled successfully: no script of the scope is still loading; the factory has been applied
  exactly once, to as many arguments as there are declared dependencies; the argument at
  position \<open>i\<close> is the value with which the request for the \<open>i\<close>-th declared dependency
  settled, and that value is an export of the identifier the dependency resolves to (the
  synthesized value, or a value written to the registry under it); and the result the
  factory returned has been handed to the completion callback and written to the registry.

  Second, the event itself. When a script finishes loading in a reachable state, its
  identifier holds a truthy export and no dependency of the scope has failed, then: if every
  other declared dependency has settled, this event applies the factory to the exports in
  declared order, whatever the order they arrived in, and what the factory raises leaves the
  handler, what it returns is written to the registry under the module's identifier; if some
  other dependency is still outstanding, the event raises nothing and leaves the registry as
  it is.

  Third, when every declared dependency can be handed over at once (it is reserved or
  already registered), \<^verbatim>\<open>define\<close> itself applies the factory to these exports in declared
  order, with the same outcome.
\<close>

theorem declaration_order_preserved:
  "(let s = run h acts init; c = scopes s ! k; n = length (dependencies c) in
      k < length (scopes s) \<longrightarrow> (\<forall>i<n. settled_ok c i) \<longrightarrow>
      (\<exists>args. applied c = [args] \<and> length args = n \<and> loads_of k (pending s) = [] \<and>
         (\<forall>i<n. \<exists>x\<in>set (settled c).
            at_index x = i \<and> with_error x = None \<and> with_value x = args ! i \<and>
            requested (base c) (dependencies c ! i) (for_id x) \<and>
            exported (commits s) (moduleId c) (for_id x) (with_value x)) \<and>
         (case applyFn h (factory c) args of
            Inl e \<Rightarrow> completed c = []
          | Inr r \<Rightarrow> completed c = [(None, r)] \<and> (moduleId c, r) \<in> set (commits s) \<and>
                     registry s (moduleId c) \<noteq> None))) \<and>
   (let s = run h acts init; l = pending s ! j; c = scopes s ! load_scope l;
        n = length (dependencies c) in
      j < length (pending s) \<longrightarrow> registry s (load_id l) = Some m \<longrightarrow> truthy m \<longrightarrow>
      (\<forall>x\<in>set (settled c). with_error x = None) \<longrightarrow>
      (if \<forall>i<n. i \<noteq> load_index l \<longrightarrow> settled_ok c i
       then \<exists>args. length args = n \<and> args ! load_index l = m \<and>
              requested (base c) (dependencies c ! load_index l) (load_id l) \<and>
              (\<forall>x\<in>set (settled c).
                 args ! at_index x = with_value x \<and>
                 requested (base c) (dependencies c ! at_index x) (for_id x) \<and>
                 exported (commits s) (moduleId c) (for_id x) (with_value x)) \<and>
              fst (step h (Onload j) s) = raised_by h (factory c) args \<and>
              registry (snd (step h (Onload j) s)) =
                registry_after h (factory c) args (moduleId c) (registry s)
       else fst (step h (Onload j) s) = None \<and>
            registry (snd (step h (Onload j) s)) = registry s)) \<and>
   (inferModuleId h ctx = Inr loc \<longrightarrow> backslash \<notin> set (effective_id ident loc) \<longrightarrow>
    registry s0 (effective_id ident loc) = None \<longrightarrow> dirname loc = Some b \<longrightarrow>
    js_or (js_or fct deps) ident = VFun f \<longrightarrow>
    map (export_of s0 (effective_id ident loc) b) (effective_dependencies ident deps) =
      map Some vs \<longrightarrow>
    fst (define h ctx ident deps fct s0) = raised_by h f vs \<and>
    registry (snd (define h ctx ident deps fct s0)) =
      registry_after h f vs (effective_id ident loc) (registry s0))"
proof (intro conjI)
  let ?s = "run h acts init"
  have inv: "invariant ?s" by (rule run_invariant [OF invariant_init])
  have led: "ledger h ?s" by (rule reachable_ledger)
  show "let s = run h acts init; c = scopes s ! k; n = length (dependencies c) in
      k < length (scopes s) \<longrightarrow> (\<forall>i<n. settled_ok c i) \<longrightarrow>
      (\<exists>args. applied c = [args] \<and> length args = n \<and> loads_of k (pending s) = [] \<and>
         (\<forall>i<n. \<exists>x\<in>set (settled c).
            at_index x = i \<and> with_error x = None \<and> with_value x = args ! i \<and>
            requested (base c) (dependencies c ! i) (for_id x) \<and>
            exported (commits s) (moduleId c) (for_id x) (with_value x)) \<and>
         (case applyFn h (factory c) args of
            Inl e \<Rightarrow> completed c = []
          | Inr r \<Rightarrow> completed c = [(None, r)] \<and> (moduleId c, r) \<in> set (commits s) \<and>
                     registry s (moduleId c) \<noteq> None))"
    unfolding Let_def
  proof (intro impI)
    let ?c = "scopes ?s ! k"
    assume k: "k < length (scopes ?s)" and all: "\<forall>i<length (dependencies ?c). settled_ok ?c i"
    have ok: "scope_ok ?c (loads_of k (pending ?s))" using inv k by (simp add: invariant_iff)
    have sl: "scope_ledger h (commits ?s) ?c" using led k by (simp add: ledger_iff)
    obtain args where a: "applied ?c = [args]" "length args = length (dependencies ?c)"
        "loads_of k (pending ?s) = []"
        "\<forall>i<length (dependencies ?c). \<exists>x\<in>set (settled ?c).
            at_index x = i \<and> with_error x = None \<and> with_value x = args ! i \<and>
            requested (base ?c) (dependencies ?c ! i) (for_id x) \<and>
            exported (commits ?s) (moduleId ?c) (for_id x) (with_value x)"
        "case applyFn h (factory ?c) args of
              Inl e \<Rightarrow> completed ?c = []
            | Inr r \<Rightarrow> completed ?c = [(None, r)] \<and> (moduleId ?c, r) \<in> set (commits ?s)"
      using all_settled_outcome [OF ok sl all] by blast
    have "case applyFn h (factory ?c) args of
            Inl e \<Rightarrow> completed ?c = []
          | Inr r \<Rightarrow> completed ?c = [(None, r)] \<and> (moduleId ?c, r) \<in> set (commits ?s) \<and>
                     registry ?s (moduleId ?c) \<noteq> None"
      using a(5) committed_registered [OF led] by (auto split: sum.splits)
    then show "\<exists>args. applied ?c = [args] \<and> length args = length (dependencies ?c) \<and>
         loads_of k (pending ?s) = [] \<and>
         (\<forall>i<length (dependencies ?c). \<exists>x\<in>set (settled ?c).
            at_index x = i \<and> with_error x = None \<and> with_value x = args ! i \<and>
            requested (base ?c) (dependencies ?c ! i) (for_id x) \<and>
            exported (commits ?s) (moduleId ?c) (for_id x) (with_value x)) \<and>
         (case applyFn h (factory ?c) args of
            Inl e \<Rightarrow> completed ?c = []
          | Inr r \<Rightarrow> completed ?c = [(None, r)] \<and> (moduleId ?c, r) \<in> set (commits ?s) \<and>
                     registry ?s (moduleId ?c) \<noteq> None)"
      using a(1-4) by (intro exI [of _ args]) simp
  qed
  show "let s = run h acts init; l = pending s ! j; c = scopes s ! load_scope l;
        n = length (dependencies c) in
      j < length (pending s) \<longrightarrow> registry s (load_id l) = Some m \<longrightarrow> truthy m \<longrightarrow>
      (\<forall>x\<in>set (settled c). with_error x = None) \<longrightarrow>
      (if \<forall>i<n. i \<noteq> load_index l \<longrightarrow> settled_ok c i
       then \<exists>args. length args = n \<and> args ! load_index l = m \<and>
              requested (base c) (dependencies c ! load_index l) (load_id l) \<and>
              (\<forall>x\<in>set (settled c).
                 args ! at_index x = with_value x \<and>
                 requested (base c) (dependencies c ! at_index x) (for_id x) \<and>
                 exported (commits s) (moduleId c) (for_id x) (with_value x)) \<and>
              fst (step h (Onload j) s) = raised_by h (factory c) args \<and>
              registry (snd (step h (Onload j) s)) =
                registry_after h (factory c) args (moduleId c) (registry s)
       else fst (step h (Onload j) s) = None \<and>
            registry (snd (step h (Onload j) s)) = registry s)"
    unfolding Let_def
    by (intro impI) (rule onload_delivery [OF inv led])
  show "inferModuleId h ctx = Inr loc \<longrightarrow> backslash \<notin> set (effective_id ident loc) \<longrightarrow>
    registry s0 (effective_id ident loc) = None \<longrightarrow> dirname loc = Some b \<longrightarrow>
    js_or (js_or fct deps) ident = VFun f \<longrightarrow>
    map (export_of s0 (effective_id ident loc) b) (effective_dependencies ident deps) =
      map Some vs \<longrightarrow>
    fst (define h ctx ident deps fct s0) = raised_by h f vs \<and>
    registry (snd (define h ctx ident deps fct s0)) =
      registry_after h f vs (effective_id ident loc) (registry s0)"
    by (intro impI) (rule define_available)
qed

text \<open>
  Witness for C4. In \<open>out_of_order_run\<close> the dependency declared second settles first;
  the event that delivers the first one applies the factory to \<open>X\<close> and \<open>Y\<close> in this
  order. In \<open>registered_run\<close> all three dependencies are at hand when \<open>m\<close> is defined.
\<close>

theorem declaration_order_preserved_witness:
  "0 < length (scopes (run collect_host out_of_order_run init)) \<and>
   length (dependencies (scopes (run collect_host out_of_order_run init) ! 0)) = 2 \<and>
   settled_ok (scopes (run collect_host out_of_order_run init) ! 0) 0 \<and>
   settled_ok (scopes (run collect_host out_of_order_run init) ! 0) 1 \<and>
   map at_index (settled (scopes (run collect_host out_of_order_run init) ! 0)) = [1, 0] \<and>
   applied (scopes (run collect_host out_of_order_run init) ! 0) = [[VStr ''X'', VStr ''Y'']] \<and>
   completed (scopes (run collect_host out_of_order_run init) ! 0) =
     [(None, VObj [(''factory'', VNum 0), (''arg'', VStr ''X''), (''arg'', VStr ''Y'')])] \<and>
   (''m'', VObj [(''factory'', VNum 0), (''arg'', VStr ''X''), (''arg'', VStr ''Y'')])
     \<in> set (commits (run collect_host out_of_order_run init)) \<and>
   0 < length (pending (run collect_host (take 4 out_of_order_run) init)) \<and>
   registry (run collect_host (take 4 out_of_order_run) init)
     (load_id (pending (run collect_host (take 4 out_of_order_run) init) ! 0)) = Some (VStr ''X'') \<and>
   truthy (VStr ''X'') \<and>
   fst (step collect_host (Onload 0) (run collect_host (take 4 out_of_order_run) init)) =
     raised_by collect_host 0 [VStr ''X'', VStr ''Y''] \<and>
   registry (snd (step collect_host (Onload 0) (run collect_host (take 4 out_of_order_run) init))) =
     registry_after collect_host 0 [VStr ''X'', VStr ''Y''] ''m''
       (registry (run collect_host (take 4 out_of_order_run) init)) \<and>
   registry_after collect_host 0 [VStr ''X'', VStr ''Y''] ''m''
       (registry (run collect_host (take 4 out_of_order_run) init)) ''m'' =
     Some (VObj [(''factory'', VNum 0), (''arg'', VStr ''X''), (''arg'', VStr ''Y'')]) \<and>
   map (export_of (run collect_host (take 2 registered_run) init) ''m'' ''http://x.com/a/'')
       [''./y'', ''module'', ''./x''] =
     map Some [VStr ''Y'', VObj [(''id'', VStr ''m'')], VStr ''X''] \<and>
   fst (define collect_host (page ''http://x.com/a/b.html'') (VStr ''m'')
          (VArr [''./y'', ''module'', ''./x'']) (VFun 0)
          (run collect_host (take 2 registered_run) init)) =
     raised_by collect_host 0 [VStr ''Y'', VObj [(''id'', VStr ''m'')], VStr ''X''] \<and>
   registry (snd (define collect_host (page ''http://x.com/a/b.html'') (VStr ''m'')
          (VArr [''./y'', ''module'', ''./x'']) (VFun 0)
          (run collect_host (take 2 registered_run) init))) ''m'' =
     Some (VObj [(''factory'', VNum 0), (''arg'', VStr ''Y''),
                 (''arg'', VObj [(''id'', VStr ''m'')]), (''arg'', VStr ''X'')])"
proof -
  let ?s = "run collect_host out_of_order_run init"
  let ?c = "scopes ?s ! 0"
  let ?s4 = "run collect_host (take 4 out_of_order_run) init"
  let ?s2 = "run collect_host (take 2 registered_run) init"
  let ?r = "VObj [(''factory'', VNum 0), (''arg'', VStr ''X''), (''arg'', VStr ''Y'')]"
  \<comment> \<open>first part: the state after the run\<close>
  have h1: "0 < length (scopes ?s)" by (simp add: out_of_order_scopes)
  have n: "length (dependencies ?c) = 2" by (simp add: out_of_order_scopes)
  have s0: "settled_ok ?c 0" by (simp add: out_of_order_scopes settled_ok_def)
  have s1: "settled_ok ?c 1" by (simp add: out_of_order_scopes settled_ok_def)
  have all: "\<forall>i<length (dependencies ?c). settled_ok ?c i"
    using s0 s1 n by (auto simp: less_Suc_eq numeral_2_eq_2)
  have order: "map at_index (settled ?c) = [1, 0]" by (simp add: out_of_order_scopes)
  have app: "applied ?c = [[VStr ''X'', VStr ''Y'']]" by (simp add: out_of_order_scopes)
  have fac: "factory ?c = 0" "moduleId ?c = ''m''" by (simp_all add: out_of_order_scopes)
  have res: "applyFn collect_host 0 [VStr ''X'', VStr ''Y''] = Inr ?r"
    by (simp add: collect_host_def)
  note t1 = declaration_order_preserved [of collect_host out_of_order_run 0, THEN conjunct1]
  obtain args where a: "applied ?c = [args]"
    and out: "case applyFn collect_host (factory ?c) args of
            Inl e \<Rightarrow> completed ?c = []
          | Inr r \<Rightarrow> completed ?c = [(None, r)] \<and> (moduleId ?c, r) \<in> set (commits ?s) \<and>
                     registry ?s (moduleId ?c) \<noteq> None"
    using t1 h1 all unfolding Let_def by blast
  have "args = [VStr ''X'', VStr ''Y'']" using a app by simp
  then have c1: "completed ?c = [(None, ?r)]" and c2: "(''m'', ?r) \<in> set (commits ?s)"
    using out res fac by simp_all
  \<comment> \<open>second part: the event that delivers the last export\<close>
  have p1: "0 < length (pending ?s4)" by (simp add: out_of_order_before_last)
  have p2: "registry ?s4 (load_id (pending ?s4 ! 0)) = Some (VStr ''X'')"
    by (simp add: out_of_order_before_last)
  have p3: "truthy (VStr ''X'')" by simp
  have p4: "\<forall>x\<in>set (settled (scopes ?s4 ! load_scope (pending ?s4 ! 0))). with_error x = None"
    by (simp add: out_of_order_before_last)
  have p5: "\<forall>i<length (dependencies (scopes ?s4 ! load_scope (pending ?s4 ! 0))).
      i \<noteq> load_index (pending ?s4 ! 0) \<longrightarrow> settled_ok (scopes ?s4 ! load_scope (pending ?s4 ! 0)) i"
    by (auto simp: out_of_order_before_last settled_ok_def less_Suc_eq numeral_2_eq_2)
  note t2 = declaration_order_preserved [of collect_host "take 4 out_of_order_run" _ 0 "VStr ''X''",
              THEN conjunct2, THEN conjunct1]
  note p4r = p4 [rule_format]
  note t2' = t2 [unfolded Let_def, rule_format, OF p1 p2 p3 p4r]
  note t2'' = t2' [unfolded if_P [OF p5]]
  obtain args2 where b: "length args2 = Suc (Suc 0)" "args2 ! 0 = VStr ''X''"
    "args2 ! Suc 0 = VStr ''Y''"
    "fst (step collect_host (Onload 0) ?s4) = raised_by collect_host 0 args2"
    "registry (snd (step collect_host (Onload 0) ?s4)) =
       registry_after collect_host 0 args2 ''m'' (registry ?s4)"
    using t2'' by (auto simp: out_of_order_before_last)
  have a2: "args2 = [VStr ''X'', VStr ''Y'']" by (rule list2_eq [OF b(1-3)])
  have d1: "fst (step collect_host (Onload 0) ?s4) = raised_by collect_host 0 [VStr ''X'', VStr ''Y'']"
    using b(4) a2 by simp
  have d2: "registry (snd (step collect_host (Onload 0) ?s4)) =
       registry_after collect_host 0 [VStr ''X'', VStr ''Y''] ''m'' (registry ?s4)"
    using b(5) a2 by simp
  have d3: "registry_after collect_host 0 [VStr ''X'', VStr ''Y''] ''m'' (registry ?s4) ''m'' = Some ?r"
    by (simp add: registry_after_def collect_host_def)
  \<comment> \<open>third part: all dependencies registered beforehand\<close>
  let ?vs = "[VStr ''Y'', VObj [(''id'', VStr ''m'')], VStr ''X'']"
  have q1: "inferModuleId collect_host (page ''http://x.com/a/b.html'') = Inr ''http://x.com/a/b.html''"
    by (simp add: infer_page)
  have q2: "backslash \<notin> set (effective_id (VStr ''m'') ''http://x.com/a/b.html'')"
    by (simp add: effective_id_def backslash_def)
  have q3: "registry ?s2 (effective_id (VStr ''m'') ''http://x.com/a/b.html'') = None"
    by (simp add: effective_id_def registered_before)
  have q4: "dirname ''http://x.com/a/b.html'' = Some ''http://x.com/a/''"
    by (simp add: regex_defs)
  have q5: "js_or (js_or (VFun 0) (VArr [''./y'', ''module'', ''./x''])) (VStr ''m'') = VFun 0"
    by (simp add: js_or_def)
  have q6': "map (export_of ?s2 ''m'' ''http://x.com/a/'') [''./y'', ''module'', ''./x''] = map Some ?vs"
    by (simp add: export_of_def available_def reserved_def regex_defs registered_before)
  have q6: "map (export_of ?s2 (effective_id (VStr ''m'') ''http://x.com/a/b.html'') ''http://x.com/a/'')
      (effective_dependencies (VStr ''m'') (VArr [''./y'', ''module'', ''./x''])) = map Some ?vs"
    using q6' by (simp add: effective_id_def effective_dependencies_def)
  note t3 = declaration_order_preserved [THEN conjunct2, THEN conjunct2, rule_format,
              OF q1 q2 q3 q4 q5 q6]
  have e1: "fst (define collect_host (page ''http://x.com/a/b.html'') (VStr ''m'')
          (VArr [''./y'', ''module'', ''./x'']) (VFun 0) ?s2) = raised_by collect_host 0 ?vs"
    using t3 by blast
  have "registry (snd (define collect_host (page ''http://x.com/a/b.html'') (VStr ''m'')
          (VArr [''./y'', ''module'', ''./x'']) (VFun 0) ?s2)) =
        registry_after collect_host 0 ?vs (effective_id (VStr ''m'') ''http://x.com/a/b.html'')
          (registry ?s2)"
    using t3 by blast
  then have e2: "registry (snd (define collect_host (page ''http://x.com/a/b.html'') (VStr ''m'')
          (VArr [''./y'', ''module'', ''./x'']) (VFun 0) ?s2)) ''m'' =
     Some (VObj [(''factory'', VNum 0), (''arg'', VStr ''Y''),
                 (''arg'', VObj [(''id'', VStr ''m'')]), (''arg'', VStr ''X'')])"
    by (simp add: registry_after_def collect_host_def effective_id_def)
  show ?thesis
    by (intro conjI h1 n s0 s1 order app c1 c2 p1 p2 p3 d1 d2 d3 q6' e1 e2)
qed

text \<open>
  Claim C5, as amended. The base path comes from the identifier that inference returns for
  the defining unit, \<open>loc\<close>: the \<^verbatim>\<open>as\<close> alias of the current script when it has one,
  otherwise the location of the unit (the \<^verbatim>\<open>baseURI\<close> of its document, or the
  \<^verbatim>\<open>src\<close> of the script resolved against it). Whenever \<^verbatim>\<open>define\<close> gets as far as resolving, the base path it
  hands on is everything up to and including the final \<^verbatim>\<open>/\<close> of \<open>loc\<close>, whatever the
  identifier argument is; and a unit whose inferred identifier is
  \<^verbatim>\<open>http://x.com/a/b.html\<close> and which declares the dependency \<^verbatim>\<open>./c.html\<close> requests
  \<^verbatim>\<open>http://x.com/a/c.html\<close> for it (here from the loader, the registry not holding it),
  whatever its identifier argument. (The directory-name expression has no match when a line
  terminator precedes the final \<^verbatim>\<open>/\<close>; the call then raises and nothing is resolved.)
\<close>

theorem base_path_from_inferred_identifier:
  assumes "inferModuleId h ctx = Inr loc"
    and "backslash \<notin> set (effective_id ident loc)"
    and "registry s (effective_id ident loc) = None"
    and "\<not> (\<exists>c\<in>set (upto_final_slash loc). line_terminator c)"
  shows "define h ctx ident deps fct s =
           runFactory h (effective_id ident loc) (upto_final_slash loc)
             (effective_dependencies ident deps) (js_or (js_or fct deps) ident) s \<and>
         (loc = ''http://x.com/a/b.html'' \<longrightarrow> registry s ''http://x.com/a/c.html'' = None \<longrightarrow>
            define h ctx ident (VArr [''./c.html'']) (VFun f) s =
              (None,
               s\<lparr>scopes := scopes s @
                    [new_scope (effective_id ident loc) ''http://x.com/a/'' [''./c.html''] f],
                 pending := pending s @
                    [\<lparr>load_src = ''components/jquery/dist/http://x.com/a/c.html.js'',
                      load_id = ''http://x.com/a/c.html'',
                      load_moduleId = effective_id ident loc,
                      load_scope = length (scopes s), load_index = 0\<rparr>]\<rparr>)) \<and>
         (\<forall>sc a. currentScript ctx = Some sc \<longrightarrow> attr_as sc = Some a \<longrightarrow> loc = a) \<and>
         (\<forall>sc. currentScript ctx = Some sc \<longrightarrow> attr_as sc = None \<longrightarrow> attr_src sc = None \<longrightarrow>
            baseURI (case ownerDocument sc of Some d \<Rightarrow> d | None \<Rightarrow> global_document ctx) =
              Some loc) \<and>
         (\<forall>sc src. currentScript ctx = Some sc \<longrightarrow> attr_as sc = None \<longrightarrow>
            attr_src sc = Some src \<longrightarrow>
            (\<exists>u. baseURI (case ownerDocument sc of Some d \<Rightarrow> d | None \<Rightarrow> global_document ctx) =
                   Some u \<and> newURL h src u = Some loc))"
proof (intro conjI impI allI)
  show "define h ctx ident deps fct s =
           runFactory h (effective_id ident loc) (upto_final_slash loc)
             (effective_dependencies ident deps) (js_or (js_or fct deps) ident) s"
    by (rule define_runs_factory [OF assms])
next
  assume "loc = ''http://x.com/a/b.html''" and "registry s ''http://x.com/a/c.html'' = None"
  then show "define h ctx ident (VArr [''./c.html'']) (VFun f) s =
              (None,
               s\<lparr>scopes := scopes s @
                    [new_scope (effective_id ident loc) ''http://x.com/a/'' [''./c.html''] f],
                 pending := pending s @
                    [\<lparr>load_src = ''components/jquery/dist/http://x.com/a/c.html.js'',
                      load_id = ''http://x.com/a/c.html'',
                      load_moduleId = effective_id ident loc,
                      load_scope = length (scopes s), load_index = 0\<rparr>]\<rparr>)"
    using concrete_dependency_resolution [of h ctx ident s f] assms(1-3) by simp
next
  fix sc a assume "currentScript ctx = Some sc" and "attr_as sc = Some a"
  then show "loc = a" using assms(1) by (simp add: inferModuleId_def)
next
  fix sc assume "currentScript ctx = Some sc" and "attr_as sc = None" and "attr_src sc = None"
  then show "baseURI (case ownerDocument sc of Some d \<Rightarrow> d | None \<Rightarrow> global_document ctx) =
      Some loc"
    using assms(1) by (simp add: inferModuleId_def Let_def split: option.splits if_splits)
next
  fix sc src
  assume "currentScript ctx = Some sc" and "attr_as sc = None" and "attr_src sc = Some src"
  then show "\<exists>u. baseURI (case ownerDocument sc of Some d \<Rightarrow> d | None \<Rightarrow> global_document ctx) =
      Some u \<and> newURL h src u = Some loc"
    using assms(1) by (simp add: inferModuleId_def Let_def split: option.splits if_splits)
qed

text \<open>
  Witness for C5: the unit at \<^verbatim>\<open>http://x.com/a/b.html\<close> declares the identifier
  \<^verbatim>\<open>public/name\<close> and the dependency \<^verbatim>\<open>./c.html\<close>; and the same unit under the
  alias \<^verbatim>\<open>lib/thingy\<close>, whose base path is \<^verbatim>\<open>lib/\<close>.
\<close>

theorem base_path_from_inferred_identifier_witness:
  "inferModuleId collect_host (page ''http://x.com/a/b.html'') = Inr ''http://x.com/a/b.html'' \<and>
   backslash \<notin> set (effective_id (VStr ''public/name'') ''http://x.com/a/b.html'') \<and>
   registry init (effective_id (VStr ''public/name'') ''http://x.com/a/b.html'') = None \<and>
   \<not> (\<exists>c\<in>set (upto_final_slash ''http://x.com/a/b.html''). line_terminator c) \<and>
   define collect_host (page ''http://x.com/a/b.html'') (VStr ''public/name'')
       (VArr [''./c.html'']) (VFun 0) init =
     runFactory collect_host (effective_id (VStr ''public/name'') ''http://x.com/a/b.html'')
       (upto_final_slash ''http://x.com/a/b.html'')
       (effective_dependencies (VStr ''public/name'') (VArr [''./c.html'']))
       (js_or (js_or (VFun 0) (VArr [''./c.html''])) (VStr ''public/name'')) init \<and>
   upto_final_slash ''http://x.com/a/b.html'' = ''http://x.com/a/'' \<and>
   map load_id (pending (snd (define collect_host (page ''http://x.com/a/b.html'')
       (VStr ''public/name'') (VArr [''./c.html'']) (VFun 0) init))) = [''http://x.com/a/c.html''] \<and>
   inferModuleId collect_host (aliased ''lib/thingy'' ''http://x.com/a/b.html'') = Inr ''lib/thingy'' \<and>
   upto_final_slash ''lib/thingy'' = ''lib/'' \<and>
   define collect_host (aliased ''lib/thingy'' ''http://x.com/a/b.html'') (VStr ''public/name'')
       (VArr [''./c.html'']) (VFun 0) init =
     runFactory collect_host (effective_id (VStr ''public/name'') ''lib/thingy'')
       (upto_final_slash ''lib/thingy'')
       (effective_dependencies (VStr ''public/name'') (VArr [''./c.html'']))
       (js_or (js_or (VFun 0) (VArr [''./c.html''])) (VStr ''public/name'')) init \<and>
   map load_id (pending (snd (define collect_host (aliased ''lib/thingy'' ''http://x.com/a/b.html'')
       (VStr ''public/name'') (VArr [''./c.html'']) (VFun 0) init))) = [''lib/c.html'']"
proof -
  have h1: "inferModuleId collect_host (page ''http://x.com/a/b.html'') = Inr ''http://x.com/a/b.html''"
    by (simp add: infer_page)
  have h2: "backslash \<notin> set (effective_id (VStr ''public/name'') ''http://x.com/a/b.html'')"
    by (simp add: effective_id_def backslash_def)
  have h3: "registry init (effective_id (VStr ''public/name'') ''http://x.com/a/b.html'') = None"
    by (simp add: init_def)
  have h4: "\<not> (\<exists>c\<in>set (upto_final_slash ''http://x.com/a/b.html''). line_terminator c)"
    by (simp add: upto_final_slash_def slash_def line_terminator_def)
  have h5: "upto_final_slash ''http://x.com/a/b.html'' = ''http://x.com/a/''"
    by (simp add: upto_final_slash_def slash_def)
  have h6: "map load_id (pending (snd (define collect_host (page ''http://x.com/a/b.html'')
       (VStr ''public/name'') (VArr [''./c.html'']) (VFun 0) init))) = [''http://x.com/a/c.html'']"
    by (simp add: Let_def regex_defs loader_defs collect_host_def page_def)
  have c: "define collect_host (page ''http://x.com/a/b.html'') (VStr ''public/name'')
       (VArr [''./c.html'']) (VFun 0) init =
     runFactory collect_host (effective_id (VStr ''public/name'') ''http://x.com/a/b.html'')
       (upto_final_slash ''http://x.com/a/b.html'')
       (effective_dependencies (VStr ''public/name'') (VArr [''./c.html'']))
       (js_or (js_or (VFun 0) (VArr [''./c.html''])) (VStr ''public/name'')) init"
    using base_path_from_inferred_identifier [OF h1 h2 h3 h4] by blast
  have a1: "inferModuleId collect_host (aliased ''lib/thingy'' ''http://x.com/a/b.html'') =
      Inr ''lib/thingy''"
    by (simp add: inferModuleId_def aliased_def)
  have a2: "backslash \<notin> set (effective_id (VStr ''public/name'') ''lib/thingy'')"
    by (simp add: effective_id_def backslash_def)
  have a3: "registry init (effective_id (VStr ''public/name'') ''lib/thingy'') = None"
    by (simp add: init_def)
  have a4: "\<not> (\<exists>c\<in>set (upto_final_slash ''lib/thingy''). line_terminator c)"
    by (simp add: upto_final_slash_def slash_def line_terminator_def)
  have a5: "upto_final_slash ''lib/thingy'' = ''lib/''"
    by (simp add: upto_final_slash_def slash_def)
  have a6: "map load_id (pending (snd (define collect_host
       (aliased ''lib/thingy'' ''http://x.com/a/b.html'')
       (VStr ''public/name'') (VArr [''./c.html'']) (VFun 0) init))) = [''lib/c.html'']"
    by (simp add: Let_def regex_defs loader_defs collect_host_def aliased_def)
  have d: "define collect_host (aliased ''lib/thingy'' ''http://x.com/a/b.html'') (VStr ''public/name'')
       (VArr [''./c.html'']) (VFun 0) init =
     runFactory collect_host (effective_id (VStr ''public/name'') ''lib/thingy'')
       (upto_final_slash ''lib/thingy'')
       (effective_dependencies (VStr ''public/name'') (VArr [''./c.html'']))
       (js_or (js_or (VFun 0) (VArr [''./c.html''])) (VStr ''public/name'')) init"
    using base_path_from_inferred_identifier [OF a1 a2 a3 a4] by blast
  show ?thesis by (intro conjI h1 h2 h3 h4 h5 h6 c a1 a5 d a6)
qed

text \<open>
  Counterexample to C5 as stated: the unit at \<^verbatim>\<open>http://x.com/a/b.html\<close> runs in a script
  with the alias \<^verbatim>\<open>thingy\<close>. The base path is taken from the alias, not from the
  location: it is empty, and \<^verbatim>\<open>./c.html\<close> is requested as \<^verbatim>\<open>c.html\<close>, with or
  without an identifier argument.
\<close>

theorem alias_base_counterexample:
  "inferModuleId collect_host (aliased ''thingy'' ''http://x.com/a/b.html'') = Inr ''thingy'' \<and>
   map load_id (pending (snd (define collect_host (aliased ''thingy'' ''http://x.com/a/b.html'')
      (VArr [''./c.html'']) (VFun 0) VUndefined init))) = [''c.html''] \<and>
   map load_id (pending (snd (define collect_host (aliased ''thingy'' ''http://x.com/a/b.html'')
      (VStr ''m'') (VArr [''./c.html'']) (VFun 0) init))) = [''c.html''] \<and>
   ''c.html'' \<noteq> ''http://x.com/a/c.html''"
  by (simp add: Let_def regex_defs loader_defs collect_host_def aliased_def)

text \<open>
  Claim C6, as amended. \<^verbatim>\<open>_resolveRelativeId\<close> itself keeps the trailing segment of its
  base: for base \<^verbatim>\<open>a/b/c\<close> and identifier \<^verbatim>\<open>../d\<close> it yields \<^verbatim>\<open>a/b/d\<close>. The
  segment is removed before, by the directory-name rule of \<^verbatim>\<open>define\<close>: a unit whose
  inferred location is \<^verbatim>\<open>a/b/c\<close> has base \<^verbatim>\<open>a/b/\<close>, against which \<^verbatim>\<open>../d\<close>
  resolves to \<^verbatim>\<open>a/d\<close>, and that is the identifier \<^verbatim>\<open>define\<close> requests.
\<close>

theorem dirname_then_resolve:
  "resolveRelativeId ''a/b/c'' ''../d'' = Inr ''a/b/d'' \<and>
   dirname ''a/b/c'' = Some ''a/b/'' \<and>
   resolveRelativeId ''a/b/'' ''../d'' = Inr ''a/d'' \<and>
   map load_id (pending (snd (define collect_host (page ''a/b/c'') (VStr ''m'') (VArr [''../d''])
     (VFun 0) init))) = [''a/d'']"
  by (simp add: Let_def regex_defs loader_defs collect_host_def page_def)

text \<open>
  Counterexample to C6 as stated: applied to the base \<^verbatim>\<open>a/b/c\<close> itself, the function
  yields \<^verbatim>\<open>a/b/d\<close>, not \<^verbatim>\<open>a/d\<close>.
\<close>

theorem resolve_keeps_trailing_segment_counterexample:
  "resolveRelativeId ''a/b/c'' ''../d'' = Inr ''a/b/d'' \<and>
   resolveRelativeId ''a/b/c'' ''../d'' \<noteq> Inr ''a/d''"
  by (simp add: regex_defs)

text \<open>
  Claim C7 (the reserved identifiers), evaluated at \<^verbatim>\<open>'require'\<close>. The branch of
  \<^verbatim>\<open>_require\<close> for it calls the unbound name \<^verbatim>\<open>calback\<close>: the request raises a
  ReferenceError instead of settling, in every state; \<^verbatim>\<open>define("m", ["require"], f)\<close>
  raises it to its caller, applies no factory and registers nothing. (\<^verbatim>\<open>'exports'\<close> and
  \<^verbatim>\<open>'module'\<close> do settle with the synthesized values, and no reserved identifier is
  relativized: \<open>exports_and_module_synthesized\<close>, \<open>reserved_not_relativized\<close>.)
\<close>

theorem require_dependency_throws:
  "require h ''require'' m k i s = (Some (ReferenceError ''calback is not defined''), s) \<and>
   fst (define collect_host (page ''http://x.com/a/b.html'') (VStr ''m'') (VArr [''require''])
          (VFun 0) init) = Some (ReferenceError ''calback is not defined'') \<and>
   registry (snd (define collect_host (page ''http://x.com/a/b.html'') (VStr ''m'')
          (VArr [''require'']) (VFun 0) init)) ''m'' = None \<and>
   scopes (snd (define collect_host (page ''http://x.com/a/b.html'') (VStr ''m'')
          (VArr [''require'']) (VFun 0) init)) = [new_scope ''m'' ''http://x.com/a/'' [''require''] 0]"
  by (simp add: Let_def regex_defs loader_defs collect_host_def page_def)

text \<open>
  Claim C8, as amended. Inference runs first in every call. When it succeeds and the
  identifier, explicit or inferred, contains a backslash, \<^verbatim>\<open>define\<close> raises the
  invalid-identifier TypeError and leaves the whole state as it was; no assumption is made
  on the registry, so the backslash test comes before the already-defined test, whose error
  is a different one.
\<close>

theorem backslash_rejected_after_inference:
  assumes "inferModuleId h ctx = Inr loc"
    and "backslash \<in> set (effective_id ident loc)"
  shows "define h ctx ident deps fct s = (Some invalid_identifier, s) \<and>
         invalid_identifier \<noteq> already_defined (effective_id ident loc)"
  using assms by (simp add: define_def Let_def invalid_identifier_def already_defined_def)

text \<open>
  Witness for C8: an explicit identifier \<^verbatim>\<open>a\b\<close> in an inline script.
\<close>

theorem backslash_rejected_after_inference_witness:
  "inferModuleId collect_host (page ''http://x.com/a/b.html'') = Inr ''http://x.com/a/b.html'' \<and>
   backslash \<in> set (effective_id (VStr [CHR ''a'', backslash, CHR ''b'']) ''http://x.com/a/b.html'') \<and>
   define collect_host (page ''http://x.com/a/b.html'') (VStr [CHR ''a'', backslash, CHR ''b''])
     (VNum 1) VUndefined init = (Some invalid_identifier, init)"
proof -
  have h1: "inferModuleId collect_host (page ''http://x.com/a/b.html'') = Inr ''http://x.com/a/b.html''"
    by (simp add: infer_page)
  have h2: "backslash \<in> set (effective_id (VStr [CHR ''a'', backslash, CHR ''b'']) ''http://x.com/a/b.html'')"
    by (simp add: effective_id_def)
  have c: "define collect_host (page ''http://x.com/a/b.html'') (VStr [CHR ''a'', backslash, CHR ''b''])
     (VNum 1) VUndefined init = (Some invalid_identifier, init)"
    using backslash_rejected_after_inference [OF h1 h2] by blast
  show ?thesis by (intro conjI h1 h2 c)
qed

text \<open>
  Counterexample to C8 as stated: with the same explicit identifier in a document without
  \<^verbatim>\<open>baseURI\<close>, inference raises its own error first and the invalid-identifier error
  is not the one that surfaces.
\<close>

theorem backslash_without_base_counterexample:
  "backslash \<in> set [CHR ''a'', backslash, CHR ''b''] \<and>
   fst (define collect_host no_base (VStr [CHR ''a'', backslash, CHR ''b'']) (VNum 1) VUndefined init)
     = Some (Error ''Unable to determine a module id: No baseURI for the document'') \<and>
   fst (define collect_host no_base (VStr [CHR ''a'', backslash, CHR ''b'']) (VNum 1) VUndefined init)
     \<noteq> Some invalid_identifier"
  by (simp add: define_def inferModuleId_def no_base_def invalid_identifier_def Let_def)

text \<open>
  Claim C9 (how an externally loaded dependency settles), evaluated on
  \<open>empty_export_run\<close>. When the script of \<open>x\<close> has loaded, \<open>x\<close> is in the registry,
  with the export \<^verbatim>\<open>undefined\<close>; the callback tests \<^verbatim>\<open>_modules[id]\<close> for
  truthiness, so the dependency settles with the not-loaded error and \<open>m\<close> is never
  registered. (Had \<open>x\<close> been present when it was requested, the same export would have
  settled the dependency successfully: \<open>present_empty_export_settles\<close>.)
\<close>

theorem empty_export_reported_not_loaded:
  "registry (run void_host empty_export_run init) ''x'' = Some VUndefined \<and>
   settled (scopes (run void_host empty_export_run init) ! 0) =
     [\<lparr>at_index = 0, for_id = ''x'', with_error = Some (not_loaded ''x'' ''m''),
       with_value = VUndefined\<rparr>] \<and>
   registry (run void_host empty_export_run init) ''m'' = None"
  by (simp add: empty_export_run_def Let_def regex_defs loader_defs void_host_def page_def)

text \<open>
  Claim C10 (the one location of external loads). A request for an identifier that is not
  reserved and not in the registry appends exactly one script element, whose \<^verbatim>\<open>src\<close> is
  \<^verbatim>\<open>components/jquery/dist/\<close>, the identifier, \<^verbatim>\<open>.js\<close>; and in every reachable
  state every script still loading has a \<^verbatim>\<open>src\<close> of that form, built from the
  identifier that its declared dependency resolved to.
\<close>

theorem external_load_location:
  "(\<not> reserved ident \<longrightarrow> registry s ident = None \<longrightarrow>
      require h ident m k i s =
        (None, s\<lparr>pending := pending s @
           [\<lparr>load_src = ''components/jquery/dist/'' @ ident @ ''.js'', load_id = ident,
             load_moduleId = m, load_scope = k, load_index = i\<rparr>]\<rparr>)) \<and>
   (\<forall>l\<in>set (pending (run h acts init)).
      load_src l = ''components/jquery/dist/'' @ load_id l @ ''.js'' \<and>
      load_scope l < length (scopes (run h acts init)) \<and>
      load_index l < length (dependencies (scopes (run h acts init) ! load_scope l)) \<and>
      requested (base (scopes (run h acts init) ! load_scope l))
        (dependencies (scopes (run h acts init) ! load_scope l) ! load_index l) (load_id l))"
proof (intro conjI impI ballI)
  assume "\<not> reserved ident" and "registry s ident = None"
  then show "require h ident m k i s =
        (None, s\<lparr>pending := pending s @
           [\<lparr>load_src = ''components/jquery/dist/'' @ ident @ ''.js'', load_id = ident,
             load_moduleId = m, load_scope = k, load_index = i\<rparr>]\<rparr>)"
    unfolding require_def reserved_def loadScript_def by simp
next
  let ?s = "run h acts init"
  fix l assume l: "l \<in> set (pending ?s)"
  have inv: "invariant ?s" by (rule run_invariant [OF invariant_init])
  then have k: "load_scope l < length (scopes ?s)" using l by (simp add: invariant_iff)
  then have "scope_ok (scopes ?s ! load_scope l) (loads_of (load_scope l) (pending ?s))"
    using inv by (simp add: invariant_iff)
  moreover have "l \<in> set (loads_of (load_scope l) (pending ?s))"
    using l by (simp add: loads_of_def)
  ultimately have *: "load_src l = ''components/jquery/dist/'' @ load_id l @ ''.js'' \<and>
      load_index l < length (dependencies (scopes ?s ! load_scope l)) \<and>
      requested (base (scopes ?s ! load_scope l))
        (dependencies (scopes ?s ! load_scope l) ! load_index l) (load_id l)"
    unfolding scope_ok_def list_all_iff by blast
  show "load_src l = ''components/jquery/dist/'' @ load_id l @ ''.js''" using * by blast
  show "load_scope l < length (scopes ?s)" by (rule k)
  show "load_index l < length (dependencies (scopes ?s ! load_scope l))" using * by blast
  show "requested (base (scopes ?s ! load_scope l))
        (dependencies (scopes ?s ! load_scope l) ! load_index l) (load_id l)" using * by blast
qed

text \<open>
  Witness for C10: a request for \<open>x\<close> in the initial state, and the two scripts that the
  first step of \<open>sibling_failure_run\<close> leaves loading.
\<close>

theorem external_load_location_witness:
  "\<not> reserved ''x'' \<and> registry init ''x'' = None \<and>
   require collect_host ''x'' ''m'' 0 0 init =
     (None, init\<lparr>pending := pending init @
        [\<lparr>load_src = ''components/jquery/dist/'' @ ''x'' @ ''.js'', load_id = ''x'',
          load_moduleId = ''m'', load_scope = 0, load_index = 0\<rparr>]\<rparr>) \<and>
   map load_src (pending (run collect_host (take 1 sibling_failure_run) init)) =
     [''components/jquery/dist/http://x.com/a/x.js'', ''components/jquery/dist/http://x.com/a/y.js''] \<and>
   map load_id (pending (run collect_host (take 1 sibling_failure_run) init)) =
     [''http://x.com/a/x'', ''http://x.com/a/y''] \<and>
   list_all (\<lambda>l. load_src l = ''components/jquery/dist/'' @ load_id l @ ''.js'')
     (pending (run collect_host (take 1 sibling_failure_run) init))"
proof -
  note t = external_load_location [of "''x''" init collect_host "''m''" 0 0
             "take 1 sibling_failure_run"]
  have h1: "\<not> reserved ''x''" by (simp add: reserved_def)
  have h2: "registry init ''x'' = None" by (simp add: init_def)
  have c1: "require collect_host ''x'' ''m'' 0 0 init =
     (None, init\<lparr>pending := pending init @
        [\<lparr>load_src = ''components/jquery/dist/'' @ ''x'' @ ''.js'', load_id = ''x'',
          load_moduleId = ''m'', load_scope = 0, load_index = 0\<rparr>]\<rparr>)"
    using t h1 h2 by blast
  have ev: "map load_src (pending (run collect_host (take 1 sibling_failure_run) init)) =
     [''components/jquery/dist/http://x.com/a/x.js'', ''components/jquery/dist/http://x.com/a/y.js'']"
    by (simp add: sibling_failure_run_def Let_def regex_defs loader_defs collect_host_def page_def)
  have ids: "map load_id (pending (run collect_host (take 1 sibling_failure_run) init)) =
     [''http://x.com/a/x'', ''http://x.com/a/y'']"
    by (simp add: sibling_failure_run_def Let_def regex_defs loader_defs collect_host_def page_def)
  have c2: "list_all (\<lambda>l. load_src l = ''components/jquery/dist/'' @ load_id l @ ''.js'')
     (pending (run collect_host (take 1 sibling_failure_run) init))"
    unfolding list_all_iff using t by blast
  show ?thesis by (intro conjI h1 h2 c1 ev ids c2)
qed

end
